theory Spec2Isabelle
  imports Complex_Main
begin

section \<open>JavaScript numbers\<close>

text \<open>
  The memory manager computes with JavaScript numbers: IEEE-754 doubles. Every
  arithmetic operation rounds its exact result to the nearest double (ties to even),
  with 53 significant bits, gradual underflow below \<open>2 powi -1022\<close> and overflow to an
  infinity from \<open>2 powi 1024\<close> on. A \<^verbatim>\<open>Float32Array\<close> holds single-precision numbers: 24
  significant bits, gradual underflow below \<open>2 powi -126\<close>, overflow from \<open>2 powi 128\<close> on.
  A number is the real it denotes, an infinity, or \<open>NaN\<close>.

  The two zeros of the arithmetic are one number here. They differ only in the sign of
  a quotient by zero, and the one divisor of the code that can be zero, the product of
  two square roots, is never the negative zero.
\<close>

definition rne :: "real \<Rightarrow> int" where
  "rne y = (let f = \<lfloor>y\<rfloor>; d = y - of_int f in
     if d < 1 / 2 then f else if 1 / 2 < d then f + 1 else if even f then f else f + 1)"

text \<open>The nearest multiple of \<open>2 powi e\<close>, ties to the even multiple.\<close>

definition round_at :: "int \<Rightarrow> real \<Rightarrow> real" where
  "round_at e x = of_int (rne (x / 2 powi e)) * 2 powi e"

text \<open>The binade of a non-zero real: \<open>2 powi binade x \<le> \<bar>x\<bar> < 2 powi (binade x + 1)\<close>.\<close>

definition binade :: "real \<Rightarrow> int" where
  "binade x = \<lfloor>log 2 \<bar>x\<bar>\<rfloor>"

datatype jsnum = Num real | Infinity | NegInfinity | NaN

text \<open>
  Rounding to a format of \<open>p\<close> significant bits with exponents from \<open>emin\<close> to \<open>emax\<close>:
  below \<open>2 powi emin\<close> the spacing stays that of the lowest binade, and a result that
  reaches \<open>2 powi (emax + 1)\<close> is an infinity.
\<close>

definition ieee_round :: "nat \<Rightarrow> int \<Rightarrow> int \<Rightarrow> real \<Rightarrow> jsnum" where
  "ieee_round p emin emax x =
     (if x = 0 then Num 0
      else (let y = round_at (max (binade x) emin - int p + 1) x in
            if 2 powi (emax + 1) \<le> \<bar>y\<bar>
            then (if 0 < x then Infinity else NegInfinity)
            else Num y))"

definition fl64 :: "real \<Rightarrow> jsnum" where
  "fl64 = ieee_round 53 (- 1022) 1023"

definition fl32 :: "real \<Rightarrow> jsnum" where
  "fl32 = ieee_round 24 (- 126) 127"

fun js_neg :: "jsnum \<Rightarrow> jsnum" where
  "js_neg (Num x) = Num (- x)"
| "js_neg Infinity = NegInfinity"
| "js_neg NegInfinity = Infinity"
| "js_neg NaN = NaN"

fun js_add :: "jsnum \<Rightarrow> jsnum \<Rightarrow> jsnum" where
  "js_add (Num x) (Num y) = fl64 (x + y)"
| "js_add NaN b = NaN"
| "js_add a NaN = NaN"
| "js_add Infinity NegInfinity = NaN"
| "js_add NegInfinity Infinity = NaN"
| "js_add Infinity b = Infinity"
| "js_add NegInfinity b = NegInfinity"
| "js_add a Infinity = Infinity"
| "js_add a NegInfinity = NegInfinity"

definition js_sub :: "jsnum \<Rightarrow> jsnum \<Rightarrow> jsnum" where
  "js_sub a b = js_add a (js_neg b)"

fun js_mul :: "jsnum \<Rightarrow> jsnum \<Rightarrow> jsnum" where
  "js_mul (Num x) (Num y) = fl64 (x * y)"
| "js_mul NaN b = NaN"
| "js_mul a NaN = NaN"
| "js_mul (Num x) b = (if x = 0 then NaN else if 0 < x then b else js_neg b)"
| "js_mul a (Num y) = (if y = 0 then NaN else if 0 < y then a else js_neg a)"
| "js_mul Infinity b = b"
| "js_mul NegInfinity b = js_neg b"

text \<open>A zero divisor is taken as the positive zero (see above).\<close>

fun js_div :: "jsnum \<Rightarrow> jsnum \<Rightarrow> jsnum" where
  "js_div (Num x) (Num y) =
     (if y = 0 then (if x = 0 then NaN else if 0 < x then Infinity else NegInfinity)
      else fl64 (x / y))"
| "js_div NaN b = NaN"
| "js_div a NaN = NaN"
| "js_div (Num x) b = Num 0"
| "js_div a (Num y) = (if 0 \<le> y then a else js_neg a)"
| "js_div a b = NaN"

fun js_sqrt :: "jsnum \<Rightarrow> jsnum" where
  "js_sqrt (Num x) = (if x < 0 then NaN else fl64 (sqrt x))"
| "js_sqrt Infinity = Infinity"
| "js_sqrt NegInfinity = NaN"
| "js_sqrt NaN = NaN"

text \<open>Reading a property that may be absent: \<open>undefined\<close> becomes \<open>NaN\<close> in arithmetic.\<close>

fun toNumber :: "real option \<Rightarrow> jsnum" where
  "toNumber None = NaN"
| "toNumber (Some x) = Num x"

text \<open>\<^verbatim>\<open>x || 0\<close>: \<open>undefined\<close> and \<open>0\<close> are falsy, every other real is kept.\<close>

fun or_zero :: "real option \<Rightarrow> jsnum" where
  "or_zero None = Num 0"
| "or_zero (Some x) = (if x = 0 then Num 0 else Num x)"

text \<open>An indexed read of an array; outside the array it is \<open>undefined\<close>.\<close>

definition elem_at :: "'a list \<Rightarrow> nat \<Rightarrow> 'a option" where
  "elem_at xs i = (if i < length xs then Some (xs ! i) else None)"

fun numOf :: "jsnum option \<Rightarrow> jsnum" where
  "numOf None = NaN"
| "numOf (Some v) = v"

section \<open>Patterns and their encoding\<close>

text \<open>
  A pattern is a plain object. The reals are its numeric properties; any of them, and
  the action, may be absent (the strategy verifier stores patterns that carry none of
  them). Further properties of the object are the record's extension.
\<close>

record pattern_record =
  price :: "real option"
  volume :: "real option"
  momentum :: "real option"
  cash :: "real option"
  positions :: "real option"
  action :: "string option"

text \<open>\<^verbatim>\<open>Array.prototype.indexOf\<close>, \<open>-1\<close> when the element does not occur.\<close>

fun indexOf_from :: "'a list \<Rightarrow> 'a \<Rightarrow> int \<Rightarrow> int" where
  "indexOf_from [] x i = - 1"
| "indexOf_from (y # ys) x i = (if y = x then i else indexOf_from ys x (i + 1))"

definition indexOf :: "string list \<Rightarrow> string option \<Rightarrow> int" where
  "indexOf xs a = (case a of None \<Rightarrow> - 1 | Some x \<Rightarrow> indexOf_from xs x 0)"

definition actions :: "string list" where
  "actions = [''buy'', ''sell'', ''hold'']"

definition patternToVector :: "'a pattern_record_scheme \<Rightarrow> jsnum list" where
  "patternToVector pattern =
     (let vector = replicate 128 (Num 0);
          vector = vector[0 := js_div (toNumber (price pattern)) (Num 1000)];
          vector = vector[1 := js_div (toNumber (volume pattern)) (Num 10000)];
          vector = vector[2 := or_zero (momentum pattern)];
          vector = vector[3 := js_div (toNumber (cash pattern)) (Num 100000)];
          vector = vector[4 := or_zero (positions pattern)];
          actionIdx = indexOf actions (action pattern)
      in if actionIdx \<noteq> - 1 then vector[nat (5 + actionIdx) := Num 1] else vector)"

text \<open>\<^verbatim>\<open>Float32Array.from\<close>: every element is rounded to single precision.\<close>

fun fround :: "jsnum \<Rightarrow> jsnum" where
  "fround (Num x) = fl32 x"
| "fround Infinity = Infinity"
| "fround NegInfinity = NegInfinity"
| "fround NaN = NaN"

definition Float32Array_from :: "jsnum list \<Rightarrow> jsnum list" where
  "Float32Array_from xs = map fround xs"

section \<open>The store\<close>

text \<open>
  An entry of \<^verbatim>\<open>this.patterns\<close>. Outcomes are numbers supplied by the caller and
  timestamps are the clock's milliseconds.
\<close>

record 'a entry =
  pattern :: "'a pattern_record_scheme"
  outcome :: real
  timestamp :: nat
  success :: bool
  entry_action :: "string option"
  entry_id :: nat
  skillId :: "nat option"

text \<open>What a call into the optional AgentDB backend does: it returns, or it throws.\<close>

datatype 'r outcome_of_call = Returns 'r | Throws

record causal_edge =
  fromId :: nat
  toId :: nat
  deltaOutcome :: jsnum
  confidence :: real
  weight :: real

type_synonym vector_search = "jsnum list \<Rightarrow> jsnum list list \<Rightarrow> jsnum list outcome_of_call"

text \<open>
  The manager's fields. \<open>vectorSearch\<close> is the backend's \<^verbatim>\<open>batchSimilarity\<close> when the
  component was created; \<open>skillLibrary\<close> and \<open>reflexion\<close> say whether these components
  are non-null; \<open>causalGraph\<close> holds the edges this manager has had the backend's graph
  record (what an earlier process left in the database file is outside the model).
  When the dynamic import fails, \<open>initialized\<close> stays false and closes every guard.
\<close>

record 'a store =
  initialized :: bool
  vectorSearch :: "vector_search option"
  skillLibrary :: bool
  reflexion :: bool
  causalGraph :: "causal_edge list option"
  patterns :: "'a entry list"
  vectors :: "jsnum list list"

text \<open>
  What the environment answers during one \<^verbatim>\<open>storePattern\<close> call: the clock, and the
  backend's \<^verbatim>\<open>createSkill\<close> and \<^verbatim>\<open>addCausalEdge\<close>.
\<close>

record store_env =
  now :: nat
  createSkill :: "nat outcome_of_call"
  addCausalEdge :: "unit outcome_of_call"

text \<open>
  Modelled from the spec: the backend's causal graph (AgentDB's
  \<^verbatim>\<open>CausalMemoryGraph\<close>) is not part of the sources. \<^verbatim>\<open>addEdge\<close> records a directed edge
  without validating the ids, and \<^verbatim>\<open>effectsOf id\<close> returns the recorded edges whose
  \<^verbatim>\<open>fromId\<close> is \<open>id\<close>, in insertion order.
\<close>

definition addEdge :: "causal_edge list \<Rightarrow> causal_edge \<Rightarrow> causal_edge list" where
  "addEdge g e = g @ [e]"

definition effectsOf :: "causal_edge list \<Rightarrow> nat \<Rightarrow> causal_edge list" where
  "effectsOf g i = filter (\<lambda>e. fromId e = i) g"

text \<open>
  \<^verbatim>\<open>storePattern\<close>. The entry is the object that was pushed, so setting its skill id
  shows in the list. Between the skill and the causal edge the source hands the episode
  to \<^verbatim>\<open>reflexion.storeEpisode\<close> and drops the answer, which touches no field of the
  manager. The difference of two outcomes is a subtraction of doubles; the literal 0.8
  stands for the double nearest to it.
\<close>

definition set_skillId :: "'a store \<Rightarrow> nat \<Rightarrow> 'a store" where
  "set_skillId s sid =
     s\<lparr>patterns := butlast (patterns s) @ [(last (patterns s))\<lparr>skillId := Some sid\<rparr>]\<rparr>"

definition storePattern ::
  "store_env \<Rightarrow> 'a store \<Rightarrow> 'a pattern_record_scheme \<Rightarrow> real \<Rightarrow> 'a entry \<times> 'a store" where
  "storePattern env s pat outc =
     (let embedding = patternToVector pat;
          entry = \<lparr>pattern = pat, outcome = outc, timestamp = now env, success = (0 < outc),
                   entry_action = action pat, entry_id = length (patterns s),
                   skillId = None\<rparr>;
          s = s\<lparr>vectors := vectors s @ [Float32Array_from embedding]\<rparr>;
          s = s\<lparr>patterns := patterns s @ [entry]\<rparr>;
          s = (if initialized s \<and> skillLibrary s \<and> 0 < outc
               then (case createSkill env of
                       Returns sid \<Rightarrow> set_skillId s sid
                     | Throws \<Rightarrow> s)
               else s);
          s = (case causalGraph s of
                 Some g \<Rightarrow>
                   if initialized s \<and> 1 < length (patterns s)
                   then (let prevPattern = patterns s ! (length (patterns s) - 2) in
                         case addCausalEdge env of
                           Returns _ \<Rightarrow>
                             s\<lparr>causalGraph := Some (addEdge g
                                 \<lparr>fromId = entry_id prevPattern,
                                  toId = entry_id entry,
                                  deltaOutcome = js_sub (Num outc) (Num (outcome prevPattern)),
                                  confidence = 0.8, weight = 1\<rparr>)\<rparr>
                         | Throws \<Rightarrow> s)
                   else s
               | None \<Rightarrow> s)
      in (last (patterns s), s))"

text \<open>
  The constructor starts \<^verbatim>\<open>_initialize\<close>, and every operation awaits it first. Either the
  import of AgentDB and the creation of all components succeed, or a failure leaves
  \<open>initialized\<close> false with the components created before it (the causal graph is
  created last, so it is still null).
\<close>

datatype agentdb_import = Loaded vector_search | Failed "vector_search option" bool bool

fun constructor :: "agentdb_import \<Rightarrow> 'a store" where
  "constructor (Loaded bs) =
     \<lparr>initialized = True, vectorSearch = Some bs, skillLibrary = True, reflexion = True,
      causalGraph = Some [], patterns = [], vectors = []\<rparr>"
| "constructor (Failed vs rf sl) =
     \<lparr>initialized = False, vectorSearch = vs, skillLibrary = sl, reflexion = rf,
      causalGraph = None, patterns = [], vectors = []\<rparr>"

section \<open>Similarity search\<close>

text \<open>
  The loop of \<^verbatim>\<open>_manualCosineSimilarity\<close> over the indices of the query vector, with its
  three accumulators. A read beyond the end of \<open>vec\<close> is \<open>undefined\<close>.
\<close>

function cosine_loop ::
  "jsnum list \<Rightarrow> jsnum list \<Rightarrow> nat \<Rightarrow> jsnum \<times> jsnum \<times> jsnum \<Rightarrow> jsnum \<times> jsnum \<times> jsnum" where
  "cosine_loop queryVector vec i (dotProduct, queryMagnitude, vecMagnitude) =
     (if i < length queryVector
      then cosine_loop queryVector vec (i + 1)
             (js_add dotProduct (js_mul (queryVector ! i) (numOf (elem_at vec i))),
              js_add queryMagnitude (js_mul (queryVector ! i) (queryVector ! i)),
              js_add vecMagnitude (js_mul (numOf (elem_at vec i)) (numOf (elem_at vec i))))
      else (dotProduct, queryMagnitude, vecMagnitude))"
  by pat_completeness auto
termination
  by (relation "measure (\<lambda>(q, v, i, acc). length q - i)") auto

definition cosine :: "jsnum list \<Rightarrow> jsnum list \<Rightarrow> jsnum" where
  "cosine queryVector vec =
     (case cosine_loop queryVector vec 0 (Num 0, Num 0, Num 0) of
        (dotProduct, qm, vm) \<Rightarrow>
          (let queryMagnitude = js_sqrt qm; vecMagnitude = js_sqrt vm in
           if queryMagnitude = Num 0 \<or> vecMagnitude = Num 0 then Num 0
           else js_div dotProduct (js_mul queryMagnitude vecMagnitude)))"

definition manualCosineSimilarity :: "jsnum list \<Rightarrow> jsnum list list \<Rightarrow> jsnum list" where
  "manualCosineSimilarity queryVector vs = map (cosine queryVector) vs"

record 'a result =
  res_pattern :: "'a pattern_record_scheme"
  res_outcome :: real
  res_timestamp :: nat
  res_success :: bool
  similarity :: "jsnum option"

text \<open>
  \<^verbatim>\<open>Array.prototype.sort\<close> with a comparison function. The sort looks only at the sign of
  a comparison, and a comparison that yields \<open>NaN\<close> counts as 0.
\<close>

fun sign_of :: "jsnum \<Rightarrow> int" where
  "sign_of (Num v) = (if v < 0 then - 1 else if v = 0 then 0 else 1)"
| "sign_of Infinity = 1"
| "sign_of NegInfinity = - 1"
| "sign_of NaN = 0"

definition sortCompare :: "('a \<Rightarrow> 'a \<Rightarrow> jsnum) \<Rightarrow> 'a \<Rightarrow> 'a \<Rightarrow> int" where
  "sortCompare comparefn x y = sign_of (comparefn x y)"

text \<open>
  The language's notion of a comparison function that is consistent for the elements
  of an array: no comparison yields \<open>NaN\<close>, and the three relations "compares below",
  "compares equal" and "compares above" are those of a total order of equivalence
  classes.
\<close>

definition consistent :: "('a \<Rightarrow> 'a \<Rightarrow> jsnum) \<Rightarrow> 'a list \<Rightarrow> bool" where
  "consistent comparefn xs \<longleftrightarrow>
     list_all (\<lambda>a. sortCompare comparefn a a = 0 \<and>
       list_all (\<lambda>b. comparefn a b \<noteq> NaN \<and>
         (sortCompare comparefn a b = 0 \<longrightarrow> sortCompare comparefn b a = 0) \<and>
         list_all (\<lambda>c.
           (sortCompare comparefn a b = 0 \<and> sortCompare comparefn b c = 0 \<longrightarrow>
              sortCompare comparefn a c = 0) \<and>
           (sortCompare comparefn a b < 0 \<and> sortCompare comparefn b c < 0 \<longrightarrow>
              sortCompare comparefn a c < 0) \<and>
           (sortCompare comparefn a b > 0 \<and> sortCompare comparefn b c > 0 \<longrightarrow>
              sortCompare comparefn a c > 0)) xs) xs) xs"

fun sort_insert :: "('a \<Rightarrow> 'a \<Rightarrow> jsnum) \<Rightarrow> 'a \<Rightarrow> 'a list \<Rightarrow> 'a list" where
  "sort_insert comparefn x [] = [x]"
| "sort_insert comparefn x (y # ys) =
     (if sortCompare comparefn x y \<le> 0 then x # y # ys
      else y # sort_insert comparefn x ys)"

text \<open>
  The sort is stable. With a consistent comparison function its result is determined,
  and insertion from the right (\<open>insertion_sort\<close>) computes it. With an inconsistent
  one the language leaves the order to the engine and only promises a permutation of
  the elements: \<open>engine\<close> names the positions of the array in the order in which the
  engine returns its elements (an answer that is not a permutation of the positions
  is read as leaving the array as it is).
\<close>

definition insertion_sort :: "('a \<Rightarrow> 'a \<Rightarrow> jsnum) \<Rightarrow> 'a list \<Rightarrow> 'a list" where
  "insertion_sort comparefn xs = foldr (sort_insert comparefn) xs []"

definition js_sort ::
  "('a list \<Rightarrow> nat list) \<Rightarrow> ('a \<Rightarrow> 'a \<Rightarrow> jsnum) \<Rightarrow> 'a list \<Rightarrow> 'a list" where
  "js_sort engine comparefn xs =
     (if consistent comparefn xs then insertion_sort comparefn xs
      else if sort (engine xs) = [0..<length xs] then map (\<lambda>i. xs ! i) (engine xs)
      else xs)"

definition by_similarity :: "'a result \<Rightarrow> 'a result \<Rightarrow> jsnum" where
  "by_similarity a b = js_sub (numOf (similarity b)) (numOf (similarity a))"

definition similarities_of :: "'a store \<Rightarrow> jsnum list \<Rightarrow> jsnum list" where
  "similarities_of s queryVector =
     (case vectorSearch s of
        Some batchSimilarity \<Rightarrow>
          if initialized s
          then (case batchSimilarity queryVector (vectors s) of
                  Returns similarities \<Rightarrow> similarities
                | Throws \<Rightarrow> manualCosineSimilarity queryVector (vectors s))
          else manualCosineSimilarity queryVector (vectors s)
      | None \<Rightarrow> manualCosineSimilarity queryVector (vectors s))"

definition results_of :: "'a entry list \<Rightarrow> jsnum list \<Rightarrow> 'a result list" where
  "results_of ps similarities =
     map (\<lambda>(entry, idx).
            \<lparr>res_pattern = pattern entry, res_outcome = outcome entry,
             res_timestamp = timestamp entry, res_success = success entry,
             similarity = elem_at similarities idx\<rparr>)
         (zip ps [0..<length ps])"

text \<open>
  \<^verbatim>\<open>findSimilar\<close>. The count \<open>k\<close> is a natural number (the source defaults it to 5), so
  \<^verbatim>\<open>slice(0, k)\<close> keeps the first \<open>k\<close> results. \<open>engine\<close> is the sort's engine, asked only
  when the comparison of scores is inconsistent.
\<close>

definition findSimilar ::
  "('a result list \<Rightarrow> nat list) \<Rightarrow> 'a store \<Rightarrow> 'a pattern_record_scheme \<Rightarrow> nat \<Rightarrow>
     'a result list" where
  "findSimilar engine s currentPattern k =
     (let queryVector = Float32Array_from (patternToVector currentPattern) in
      if length (vectors s) = 0 then []
      else (let similarities = similarities_of s queryVector;
                results = results_of (patterns s) similarities
            in take k (js_sort engine by_similarity (filter res_success results))))"

text \<open>
  The similarity as the specification words it: the dot product over the product of
  the magnitudes, and 0 when a magnitude is zero. Sums run from the first index up, in
  the arithmetic of the machine.
\<close>

definition dot :: "jsnum list \<Rightarrow> jsnum list \<Rightarrow> jsnum" where
  "dot a b = foldl (\<lambda>acc (x, y). js_add acc (js_mul x y)) (Num 0) (zip a b)"

definition magnitude :: "jsnum list \<Rightarrow> jsnum" where
  "magnitude a = js_sqrt (dot a a)"

definition spec_similarity :: "jsnum list \<Rightarrow> jsnum list \<Rightarrow> jsnum" where
  "spec_similarity a b =
     (if magnitude a = Num 0 \<or> magnitude b = Num 0 then Num 0
      else js_div (dot a b) (js_mul (magnitude a) (magnitude b)))"

section \<open>Causal reasoning and skills\<close>

definition digit_char :: "nat \<Rightarrow> char" where
  "digit_char d = char_of (48 + d)"

function show_nat :: "nat \<Rightarrow> string" where
  "show_nat n = (if n < 10 then [digit_char n] else show_nat (n div 10) @ [digit_char (n mod 10)])"
  by pat_completeness auto
termination
  by (relation "measure id") auto

record reasoning =
  r_action :: string
  causalPaths :: "causal_edge list"
  insight :: string

text \<open>
  \<open>query\<close> says whether the backend's \<^verbatim>\<open>queryCausalEffects\<close> returns or throws; what it
  returns is \<open>effectsOf\<close>. \<^verbatim>\<open>lastPattern.id || 0\<close> is the id itself.
\<close>

definition getCausalReasoning :: "unit outcome_of_call \<Rightarrow> 'a store \<Rightarrow> string \<Rightarrow> reasoning" where
  "getCausalReasoning query s act =
     (let ps = filter (\<lambda>p. entry_action p = Some act) (patterns s) in
      if length ps = 0
      then \<lparr>r_action = act, causalPaths = [], insight = ''No patterns found for this action''\<rparr>
      else (case causalGraph s of
              Some g \<Rightarrow>
                if initialized s
                then (case query of
                        Returns _ \<Rightarrow>
                          (let lastPattern = last ps;
                               effects = effectsOf g (entry_id lastPattern)
                           in \<lparr>r_action = act, causalPaths = effects,
                               insight = ''Found '' @ show_nat (length effects) @
                                 '' causal relationships for action: '' @ act\<rparr>)
                      | Throws \<Rightarrow>
                          \<lparr>r_action = act, causalPaths = [],
                           insight = ''Error querying causal effects''\<rparr>)
                else \<lparr>r_action = act, causalPaths = [],
                      insight = ''Causal reasoning not available (AgentDB not initialized)''\<rparr>
            | None \<Rightarrow>
                \<lparr>r_action = act, causalPaths = [],
                 insight = ''Causal reasoning not available (AgentDB not initialized)''\<rparr>))"

record 'a skill =
  name :: "string option"
  skill_pattern :: "'a pattern_record_scheme"

text \<open>
  The class declares \<^verbatim>\<open>getSkills\<close> twice; the later, synchronous declaration is the one
  in effect.
\<close>

definition getSkills :: "'a store \<Rightarrow> 'a skill list" where
  "getSkills s =
     map (\<lambda>p. \<lparr>name = action (pattern p), skill_pattern = pattern p\<rparr>)
       (filter success (patterns s))"

section \<open>Operations and reachable stores\<close>

datatype 'a operation =
    StorePattern store_env "'a pattern_record_scheme" real
  | FindSimilar "'a pattern_record_scheme" nat
  | GetCausalReasoning "unit outcome_of_call" string
  | GetSkills

text \<open>
  Only \<^verbatim>\<open>storePattern\<close> assigns to the manager's fields; the queries leave them as they
  are, and so do \<^verbatim>\<open>getSelfCritique\<close> and \<^verbatim>\<open>close\<close>, which are not modelled.
\<close>

fun step :: "'a store \<Rightarrow> 'a operation \<Rightarrow> 'a store" where
  "step s (StorePattern env pat outc) = snd (storePattern env s pat outc)"
| "step s (FindSimilar pat k) = s"
| "step s (GetCausalReasoning query act) = s"
| "step s GetSkills = s"

definition run :: "agentdb_import \<Rightarrow> 'a operation list \<Rightarrow> 'a store" where
  "run imp ops = foldl step (constructor imp) ops"

text \<open>The operations that ingest.\<close>

fun stores :: "'a operation \<Rightarrow> bool" where
  "stores (StorePattern env pat outc) = True"
| "stores _ = False"

fun loaded :: "agentdb_import \<Rightarrow> bool" where
  "loaded (Loaded bs) = True"
| "loaded (Failed vs rf sl) = False"

section \<open>Notions used to state the properties\<close>

text \<open>
  The ranking order: entry \<open>i\<close> with score \<open>a\<close> comes before entry \<open>j\<close> with score \<open>b\<close>
  when its score is higher, or the scores are equal and it was stored earlier.
\<close>

fun outranks :: "jsnum \<Rightarrow> nat \<Rightarrow> jsnum \<Rightarrow> nat \<Rightarrow> bool" where
  "outranks (Num a) i (Num b) j = (b < a \<or> (a = b \<and> i < j))"
| "outranks _ i _ j = False"

text \<open>The result record for the stored entry at index \<open>i\<close>, with a given score.\<close>

definition result_at :: "'a store \<Rightarrow> nat \<Rightarrow> jsnum option \<Rightarrow> 'a result" where
  "result_at s i sim =
     \<lparr>res_pattern = pattern (patterns s ! i), res_outcome = outcome (patterns s ! i),
      res_timestamp = timestamp (patterns s ! i), res_success = success (patterns s ! i),
      similarity = sim\<rparr>"

text \<open>
  A finite double: a number, neither \<open>NaN\<close> nor an infinity, that is an integer multiple
  of the least positive double \<open>2 powi -1074\<close>, as every finite double is (which is all
  that is used of being a double).
\<close>

fun finite_double :: "jsnum \<Rightarrow> bool" where
  "finite_double (Num r) = (of_int \<lfloor>r * 2 ^ 1074\<rfloor> = r * 2 ^ 1074)"
| "finite_double v = False"

text \<open>A finite number, and one within the range of finite single-precision values.\<close>

fun finite_num :: "jsnum \<Rightarrow> bool" where
  "finite_num (Num x) = True"
| "finite_num v = False"

fun single_range :: "jsnum \<Rightarrow> bool" where
  "single_range (Num x) = (x = 0 \<or> (2 powi (- 149) \<le> \<bar>x\<bar> \<and> \<bar>x\<bar> < 2 powi 128))"
| "single_range v = False"

text \<open>
  For the analysis of rounding: the rounding to \<open>p\<close> significant bits with the exponent
  left free, with which \<open>ieee_round\<close> agrees in the normal range of its format, and the
  sums and the similarity of the reference routine computed with it.
\<close>

definition round_to :: "nat \<Rightarrow> real \<Rightarrow> real" where
  "round_to p x = (if x = 0 then 0 else round_at (binade x - int p + 1) x)"

definition rnd53 :: "real \<Rightarrow> real" where
  "rnd53 = round_to 53"

definition rdot :: "real list \<Rightarrow> real list \<Rightarrow> real" where
  "rdot xs ys = foldl (\<lambda>acc (x, y). rnd53 (acc + rnd53 (x * y))) 0 (zip xs ys)"

definition rcos :: "real list \<Rightarrow> real list \<Rightarrow> real" where
  "rcos xs ys =
     (if rnd53 (sqrt (rdot xs xs)) = 0 \<or> rnd53 (sqrt (rdot ys ys)) = 0 then 0
      else rnd53 (rdot xs ys / rnd53 (rnd53 (sqrt (rdot xs xs)) * rnd53 (sqrt (rdot ys ys)))))"

fun the_real :: "jsnum \<Rightarrow> real" where
  "the_real (Num x) = x"
| "the_real v = 0"

section \<open>Concrete inputs\<close>

text \<open>
  Two trading patterns, and a pattern with none of the encoder's properties, as the
  strategy verifier stores after a verification.
\<close>

definition buy_pattern :: pattern_record where
  "buy_pattern = \<lparr>price = Some 0, volume = Some 0, momentum = None, cash = Some 0,
     positions = None, action = Some ''buy''\<rparr>"

definition sell_pattern :: pattern_record where
  "sell_pattern = \<lparr>price = Some 0, volume = Some 0, momentum = None, cash = Some 0,
     positions = None, action = Some ''sell''\<rparr>"

definition verification_pattern :: pattern_record where
  "verification_pattern = \<lparr>price = None, volume = None, momentum = None, cash = None,
     positions = None, action = None\<rparr>"

definition quiet_env :: store_env where
  "quiet_env = \<lparr>now = 0, createSkill = Throws, addCausalEdge = Returns ()\<rparr>"

definition fallback :: agentdb_import where
  "fallback = Failed None False False"

text \<open>An engine that returns the elements in the order in which it found them.\<close>

definition leave_in_place :: "'a list \<Rightarrow> nat list" where
  "leave_in_place xs = [0..<length xs]"


definition trading_store :: "unit store" where
  "trading_store = run fallback
     [StorePattern quiet_env buy_pattern 10, StorePattern quiet_env sell_pattern 20]"

section \<open>The encoder\<close>

lemma indexOf_actions:
  "indexOf actions a =
     (if a = Some ''buy'' then 0 else if a = Some ''sell'' then 1
      else if a = Some ''hold'' then 2 else - 1)"
  by (cases a) (auto simp: indexOf_def actions_def)

lemma length_patternToVector: "length (patternToVector p) = 128"
  by (simp add: patternToVector_def Let_def)

text \<open>
  Claim C2. The encoding of every pattern has 128 dimensions: price / 1000,
  volume / 10000, momentum (0 when absent), cash / 100000, positions (0 when absent),
  then the one-hot encoding of the action over buy, sell, hold (all three zero for
  any other action), and zero from dimension 8 on. The encoder is a total function:
  it has no failing branch.
\<close>

theorem patternToVector_layout:
  "length (patternToVector p) = 128 \<and>
   patternToVector p ! 0 = js_div (toNumber (price p)) (Num 1000) \<and>
   patternToVector p ! 1 = js_div (toNumber (volume p)) (Num 10000) \<and>
   patternToVector p ! 2 = (case momentum p of None \<Rightarrow> Num 0 | Some m \<Rightarrow> Num m) \<and>
   patternToVector p ! 3 = js_div (toNumber (cash p)) (Num 100000) \<and>
   patternToVector p ! 4 = (case positions p of None \<Rightarrow> Num 0 | Some n \<Rightarrow> Num n) \<and>
   patternToVector p ! 5 = (if action p = Some ''buy'' then Num 1 else Num 0) \<and>
   patternToVector p ! 6 = (if action p = Some ''sell'' then Num 1 else Num 0) \<and>
   patternToVector p ! 7 = (if action p = Some ''hold'' then Num 1 else Num 0) \<and>
   drop 8 (patternToVector p) = replicate 120 (Num 0)"
  by (auto simp: patternToVector_def Let_def indexOf_actions split: option.splits)

section \<open>Ingestion\<close>

lemma storePattern_patterns:
  "\<exists>sk. patterns (snd (storePattern env s pat outc)) =
     patterns s @ [\<lparr>pattern = pat, outcome = outc, timestamp = now env, success = (0 < outc),
                   entry_action = action pat, entry_id = length (patterns s), skillId = sk\<rparr>]"
  by (auto simp: storePattern_def Let_def set_skillId_def
      split: outcome_of_call.splits option.splits)

lemma storePattern_vectors:
  "vectors (snd (storePattern env s pat outc)) =
     vectors s @ [Float32Array_from (patternToVector pat)]"
  by (auto simp: storePattern_def Let_def set_skillId_def
      split: outcome_of_call.splits option.splits)

lemma storePattern_initialized:
  "initialized (snd (storePattern env s pat outc)) = initialized s"
  by (auto simp: storePattern_def Let_def set_skillId_def
      split: outcome_of_call.splits option.splits)

lemma storePattern_vectorSearch:
  "vectorSearch (snd (storePattern env s pat outc)) = vectorSearch s"
  by (auto simp: storePattern_def Let_def set_skillId_def
      split: outcome_of_call.splits option.splits)

lemma storePattern_causalGraph:
  "causalGraph (snd (storePattern env s pat outc)) =
     (case causalGraph s of
        None \<Rightarrow> None
      | Some g \<Rightarrow>
          if initialized s \<and> patterns s \<noteq> [] \<and> addCausalEdge env = Returns ()
          then Some (g @ [\<lparr>fromId = entry_id (last (patterns s)), toId = length (patterns s),
                  deltaOutcome = js_sub (Num outc) (Num (outcome (last (patterns s)))),
                  confidence = 0.8, weight = 1\<rparr>])
          else Some g)"
  by (auto simp: storePattern_def Let_def set_skillId_def addEdge_def nth_append last_conv_nth
      split: outcome_of_call.splits option.splits)

lemma storePattern_returns:
  "fst (storePattern env s pat outc) = last (patterns (snd (storePattern env s pat outc)))"
  by (simp add: storePattern_def Let_def)

lemma run_Nil: "run imp [] = constructor imp"
  by (simp add: run_def)

lemma run_snoc: "run imp (ops @ [op]) = step (run imp ops) op"
  by (simp add: run_def)

lemma patterns_constructor: "patterns (constructor imp) = []"
  by (cases imp) simp_all

lemma vectors_constructor: "vectors (constructor imp) = []"
  by (cases imp) simp_all

lemma run_ids: "map entry_id (patterns (run imp ops)) = [0..<length (filter stores ops)]"
proof (induction ops rule: rev_induct)
  case Nil
  show ?case by (simp add: run_Nil patterns_constructor)
next
  case (snoc op ops)
  have len: "length (patterns (run imp ops)) = length (filter stores ops)"
    using snoc.IH by (metis length_map length_upt minus_nat.diff_0)
  show ?case
  proof (cases op)
    case (StorePattern env pat outc)
    obtain sk where "patterns (snd (storePattern env (run imp ops) pat outc)) =
        patterns (run imp ops) @ [\<lparr>pattern = pat, outcome = outc, timestamp = now env,
          success = (0 < outc), entry_action = action pat,
          entry_id = length (patterns (run imp ops)), skillId = sk\<rparr>]"
      using storePattern_patterns by blast
    then show ?thesis
      using snoc.IH len StorePattern by (simp add: run_snoc)
  qed (use snoc.IH in \<open>simp_all add: run_snoc\<close>)
qed

lemma run_length_patterns: "length (patterns (run imp ops)) = length (filter stores ops)"
  using run_ids [of imp ops] by (metis length_map length_upt minus_nat.diff_0)

lemma run_vectors:
  "vectors (run imp ops) =
     map (\<lambda>e. Float32Array_from (patternToVector (pattern e))) (patterns (run imp ops))"
proof (induction ops rule: rev_induct)
  case Nil
  show ?case by (simp add: run_Nil patterns_constructor vectors_constructor)
next
  case (snoc op ops)
  show ?case
  proof (cases op)
    case (StorePattern env pat outc)
    obtain sk where "patterns (snd (storePattern env (run imp ops) pat outc)) =
        patterns (run imp ops) @ [\<lparr>pattern = pat, outcome = outc, timestamp = now env,
          success = (0 < outc), entry_action = action pat,
          entry_id = length (patterns (run imp ops)), skillId = sk\<rparr>]"
      using storePattern_patterns by blast
    then show ?thesis
      using snoc.IH StorePattern by (simp add: run_snoc storePattern_vectors)
  qed (use snoc.IH in \<open>simp_all add: run_snoc\<close>)
qed

lemma run_entries:
  "e \<in> set (patterns (run imp ops)) \<Longrightarrow>
     success e = (0 < outcome e) \<and> entry_action e = action (pattern e)"
proof (induction ops rule: rev_induct)
  case Nil
  then show ?case by (simp add: run_Nil patterns_constructor)
next
  case (snoc op ops)
  show ?case
  proof (cases op)
    case (StorePattern env pat outc)
    obtain sk where "patterns (snd (storePattern env (run imp ops) pat outc)) =
        patterns (run imp ops) @ [\<lparr>pattern = pat, outcome = outc, timestamp = now env,
          success = (0 < outc), entry_action = action pat,
          entry_id = length (patterns (run imp ops)), skillId = sk\<rparr>]"
      using storePattern_patterns by blast
    then show ?thesis
      using snoc StorePattern by (auto simp: run_snoc)
  qed (use snoc in \<open>simp_all add: run_snoc\<close>)
qed

text \<open>
  Claim C4. After any sequence of operations the k-th entry ever stored has sequence
  id k: the ids of the stored entries are 0, 1, ..., n - 1 where n is the number of
  \<^verbatim>\<open>storePattern\<close> calls made, so they are dense, increasing and unique, and later
  operations leave the ids already given as they are (none is reused).
\<close>

theorem sequence_ids_dense:
  "map entry_id (patterns (run imp ops)) = [0..<length (filter stores ops)] \<and>
   distinct (map entry_id (patterns (run imp ops))) \<and>
   map entry_id (patterns (run imp ops)) =
     take (length (patterns (run imp ops))) (map entry_id (patterns (run imp (ops @ ops'))))"
proof -
  have a: "map entry_id (patterns (run imp ops)) = [0..<length (filter stores ops)]"
    by (rule run_ids)
  have b: "map entry_id (patterns (run imp (ops @ ops'))) =
      [0..<length (filter stores ops) + length (filter stores ops')]"
    by (simp add: run_ids)
  show ?thesis
    unfolding a b by (simp add: run_length_patterns take_upt)
qed

text \<open>
  Claim C5. After every operation the store holds as many vectors as entries, every
  stored vector has 128 dimensions, and the i-th vector is the encoding of the i-th
  entry's pattern. An ingestion is one step of the store (the two pushes of
  \<^verbatim>\<open>storePattern\<close> run without an intervening await), so no operation sees one list
  ahead of the other.
\<close>

theorem vectors_match_entries:
  "length (vectors (run imp ops)) = length (patterns (run imp ops)) \<and>
   map length (vectors (run imp ops)) = replicate (length (patterns (run imp ops))) 128 \<and>
   vectors (run imp ops) =
     map (\<lambda>e. Float32Array_from (patternToVector (pattern e))) (patterns (run imp ops))"
proof -
  have "map length (map (\<lambda>e. Float32Array_from (patternToVector (pattern e))) ps) =
      replicate (length ps) 128" for ps :: "'a entry list"
    by (induction ps) (simp_all add: Float32Array_from_def length_patternToVector)
  then show ?thesis
    using run_vectors [of imp ops] by simp
qed

text \<open>
  Claim C9. The synchronous \<^verbatim>\<open>getSkills\<close> returns exactly the stored entries whose
  outcome is strictly positive, in insertion order, each as a record whose name is the
  entry's action and whose pattern is the stored pattern.
\<close>

theorem getSkills_successful:
  "getSkills (run imp ops) =
     map (\<lambda>e. \<lparr>name = entry_action e, skill_pattern = pattern e\<rparr>)
       (filter (\<lambda>e. 0 < outcome e) (patterns (run imp ops)))"
proof -
  have f: "filter success (patterns (run imp ops)) =
      filter (\<lambda>e. 0 < outcome e) (patterns (run imp ops))"
    by (rule filter_cong) (simp_all add: run_entries)
  have "map (\<lambda>p. \<lparr>name = action (pattern p), skill_pattern = pattern p\<rparr>)
        (filter (\<lambda>e. 0 < outcome e) (patterns (run imp ops))) =
      map (\<lambda>e. \<lparr>name = entry_action e, skill_pattern = pattern e\<rparr>)
        (filter (\<lambda>e. 0 < outcome e) (patterns (run imp ops)))"
    by (rule map_cong) (use run_entries in fastforce)+
  with f show ?thesis
    by (simp add: getSkills_def)
qed


section \<open>Causal edges and empty queries\<close>

lemma step_query_causalGraph:
  "causalGraph (step s (FindSimilar q k)) = causalGraph s"
  "causalGraph (step s (GetCausalReasoning query act)) = causalGraph s"
  "causalGraph (step s GetSkills) = causalGraph s"
  by simp_all

lemma run_initialized: "initialized (run imp ops) = loaded imp"
proof (induction ops rule: rev_induct)
  case Nil
  show ?case by (cases imp) (simp_all add: run_Nil)
next
  case (snoc op ops)
  then show ?case
    by (cases op) (simp_all add: run_snoc storePattern_initialized)
qed

lemma run_vectorSearch:
  "vectorSearch (run imp ops) = (case imp of Loaded bs \<Rightarrow> Some bs | Failed vs rf sl \<Rightarrow> vs)"
proof (induction ops rule: rev_induct)
  case Nil
  show ?case by (cases imp) (simp_all add: run_Nil)
next
  case (snoc op ops)
  then show ?case
    by (cases op) (simp_all add: run_snoc storePattern_vectorSearch)
qed

lemma run_fallback_graph: "causalGraph (run (Failed vs rf sl) ops) = None"
proof (induction ops rule: rev_induct)
  case Nil
  show ?case by (simp add: run_Nil)
next
  case (snoc op ops)
  then show ?case
    by (cases op) (simp_all add: run_snoc storePattern_causalGraph)
qed

lemma run_last_id:
  "patterns (run imp ops) \<noteq> [] \<Longrightarrow>
     entry_id (last (patterns (run imp ops))) = length (patterns (run imp ops)) - 1"
proof -
  assume ne: "patterns (run imp ops) \<noteq> []"
  have "entry_id (last (patterns (run imp ops))) = last (map entry_id (patterns (run imp ops)))"
    using ne by (simp add: last_map)
  also have "\<dots> = last [0..<length (patterns (run imp ops))]"
    by (simp add: run_ids run_length_patterns)
  also have "\<dots> = length (patterns (run imp ops)) - 1"
    using ne by (simp add: last_upt)
  finally show ?thesis .
qed

lemma run_loaded_graph:
  "\<exists>g. causalGraph (run (Loaded bs) ops) = Some g \<and> map toId g = map (\<lambda>e. Suc (fromId e)) g"
proof (induction ops rule: rev_induct)
  case Nil
  show ?case by (simp add: run_Nil)
next
  case (snoc op ops)
  then obtain g where g: "causalGraph (run (Loaded bs) ops) = Some g"
    "map toId g = map (\<lambda>e. Suc (fromId e)) g" by blast
  show ?case
  proof (cases op)
    case (StorePattern env pat outc)
    show ?thesis
    proof (cases "patterns (run (Loaded bs) ops) = []")
      case True
      then show ?thesis using g StorePattern
        by (simp add: run_snoc storePattern_causalGraph)
    next
      case False
      then have "0 < length (patterns (run (Loaded bs) ops))" by simp
      then show ?thesis using g StorePattern False
        by (simp add: run_snoc storePattern_causalGraph run_last_id)
    qed
  qed (use g in \<open>simp_all add: run_snoc\<close>)
qed

text \<open>
  Claim C3, as the code has it. In fallback mode (AgentDB not loaded) there is no causal
  graph and \<^verbatim>\<open>storePattern\<close> records no edge. With AgentDB loaded, \<^verbatim>\<open>storePattern\<close> on a
  store that holds at least one entry records, when the backend's \<^verbatim>\<open>addCausalEdge\<close>
  returns, exactly one edge: from the id of the most recent prior entry to the new
  entry's id, with deltaOutcome the new outcome minus the previous one (a double
  subtraction), confidence 0.8 and weight 1; on an empty store, or when the call throws,
  it records none. The queries record no edge, so every recorded edge links an id to
  its successor.
\<close>

theorem causal_edges_chain:
  "causalGraph (run (Failed vs rf sl) ops) = None \<and>
   causalGraph (snd (storePattern env (run (Failed vs rf sl) ops) pat outc)) = None \<and>
   (\<exists>g. causalGraph (run (Loaded bs) ops) = Some g \<and>
        map toId g = map (\<lambda>e. Suc (fromId e)) g \<and>
        causalGraph (snd (storePattern env (run (Loaded bs) ops) pat outc)) =
          (if patterns (run (Loaded bs) ops) \<noteq> [] \<and> addCausalEdge env = Returns ()
           then Some (g @ [\<lparr>fromId = length (patterns (run (Loaded bs) ops)) - 1,
                  toId = length (patterns (run (Loaded bs) ops)),
                  deltaOutcome = js_sub (Num outc) (Num (outcome (last (patterns (run (Loaded bs) ops))))),
                  confidence = 0.8, weight = 1\<rparr>])
           else Some g)) \<and>
   causalGraph (step s (FindSimilar q k)) = causalGraph s \<and>
   causalGraph (step s (GetCausalReasoning query act)) = causalGraph s \<and>
   causalGraph (step s GetSkills) = causalGraph s"
proof -
  obtain g where g: "causalGraph (run (Loaded bs) ops) = Some g"
    "map toId g = map (\<lambda>e. Suc (fromId e)) g"
    using run_loaded_graph by blast
  have "causalGraph (snd (storePattern env (run (Loaded bs) ops) pat outc)) =
          (if patterns (run (Loaded bs) ops) \<noteq> [] \<and> addCausalEdge env = Returns ()
           then Some (g @ [\<lparr>fromId = length (patterns (run (Loaded bs) ops)) - 1,
                  toId = length (patterns (run (Loaded bs) ops)),
                  deltaOutcome = js_sub (Num outc) (Num (outcome (last (patterns (run (Loaded bs) ops))))),
                  confidence = 0.8, weight = 1\<rparr>])
           else Some g)"
    using g by (simp add: storePattern_causalGraph run_initialized run_last_id)
  with g show ?thesis
    by (simp add: run_fallback_graph storePattern_causalGraph)
qed

text \<open>
  Claim C3 as stated fails in fallback mode: a second \<^verbatim>\<open>storePattern\<close> on a store that
  holds an entry adds no edge.
\<close>

theorem causal_edge_counterexample:
  "patterns (run fallback [StorePattern quiet_env buy_pattern 10]) \<noteq> [] \<and>
   causalGraph (run fallback [StorePattern quiet_env buy_pattern 10]) = None \<and>
   causalGraph (snd (storePattern quiet_env
      (run fallback [StorePattern quiet_env buy_pattern 10]) sell_pattern (- 5))) = None"
  by (simp add: fallback_def run_fallback_graph storePattern_causalGraph run_length_patterns
      flip: length_0_conv)

text \<open>
  Claim C8. On an empty store \<^verbatim>\<open>findSimilar\<close> returns the empty sequence, and
  \<^verbatim>\<open>getCausalReasoning\<close> for an action that no stored entry carries returns the given
  action, no causal paths and an explanatory insight; both are ordinary results.
\<close>

theorem empty_queries:
  "findSimilar engine (constructor imp) pat k = [] \<and>
   (patterns (run imp ops) = [] \<longrightarrow> findSimilar engine (run imp ops) pat k = []) \<and>
   (filter (\<lambda>e. entry_action e = Some act) (patterns s) = [] \<longrightarrow>
      getCausalReasoning query s act =
        \<lparr>r_action = act, causalPaths = [], insight = ''No patterns found for this action''\<rparr>)"
proof -
  have "vectors (run imp ops) = []" if "patterns (run imp ops) = []"
    using that by (simp add: run_vectors)
  then show ?thesis
    by (simp add: findSimilar_def getCausalReasoning_def vectors_constructor)
qed

theorem empty_queries_witness:
  "patterns (run fallback ([] :: unit operation list)) = [] \<and>
   findSimilar leave_in_place (run fallback ([] :: unit operation list)) buy_pattern 5 = [] \<and>
   filter (\<lambda>e. entry_action e = Some ''hold'')
     (patterns (run fallback [StorePattern quiet_env buy_pattern 10])) = [] \<and>
   getCausalReasoning (Returns ()) (run fallback [StorePattern quiet_env buy_pattern 10]) ''hold'' =
     \<lparr>r_action = ''hold'', causalPaths = [],
      insight = ''No patterns found for this action''\<rparr>"
proof -
  have a: "patterns (run fallback ([] :: unit operation list)) = []"
    by (simp add: run_Nil patterns_constructor)
  have b: "filter (\<lambda>e. entry_action e = Some ''hold'')
     (patterns (run fallback [StorePattern quiet_env buy_pattern 10])) = []"
    by (simp add: run_def fallback_def storePattern_def Let_def buy_pattern_def quiet_env_def)
  show ?thesis
    using a b
      empty_queries [of leave_in_place fallback buy_pattern 5 "[]" "''hold''"
        "run fallback [StorePattern quiet_env buy_pattern 10]" "Returns ()"]
    by simp
qed


section \<open>Rounding\<close>

lemma finite_double_Ints [simp]: "finite_double (Num r) \<longleftrightarrow> r * 2 ^ 1074 \<in> \<int>"
  by (auto simp: Ints_def)

declare finite_double.simps(1) [simp del]

lemma rne_error: "\<bar>of_int (rne y) - y\<bar> \<le> 1 / 2"
proof -
  have "of_int \<lfloor>y\<rfloor> \<le> y" "y < of_int \<lfloor>y\<rfloor> + 1" by linarith+
  then show ?thesis
    by (auto simp: rne_def Let_def)
qed

lemma rne_eqI:
  assumes "\<bar>y - of_int m\<bar> < 1 / 2"
  shows "rne y = m"
proof -
  have e: "\<bar>of_int (rne y) - y\<bar> \<le> 1 / 2" by (rule rne_error)
  have "\<bar>(of_int (rne y) :: real) - of_int m\<bar> < 1"
    using assms e by linarith
  then have "\<bar>rne y - m\<bar> < 1"
    by (metis (no_types) of_int_abs of_int_diff of_int_less_1_iff)
  then show ?thesis by linarith
qed

lemma rne_of_int [simp]: "rne (of_int n) = n"
  by (rule rne_eqI) simp

lemma two_powr_of_int: "(2::real) powr (of_int k) = 2 powi k"
  by (simp add: powr_real_of_int')

lemma rne_ge_1: "1 \<le> y \<Longrightarrow> 1 \<le> rne y"
proof -
  assume "1 \<le> y"
  then have "(1::real) / 2 \<le> of_int (rne y)" using rne_error [of y] by linarith
  then have "(0::real) < of_int (rne y)" by linarith
  then show ?thesis by simp
qed

lemma rne_le_m1: "y \<le> - 1 \<Longrightarrow> rne y \<le> - 1"
proof -
  assume "y \<le> - 1"
  then have "of_int (rne y) \<le> - (1::real) / 2" using rne_error [of y] by linarith
  then have "of_int (rne y) < (0::real)" by linarith
  then show ?thesis by simp
qed

lemma binade_iff:
  assumes "x \<noteq> 0"
  shows "binade x = e \<longleftrightarrow> 2 powi e \<le> \<bar>x\<bar> \<and> \<bar>x\<bar> < 2 powi (e + 1)"
proof -
  have pos: "0 < \<bar>x\<bar>" using assms by simp
  have "\<lfloor>log 2 \<bar>x\<bar>\<rfloor> = e \<longleftrightarrow> 2 powr (of_int e) \<le> \<bar>x\<bar> \<and> \<bar>x\<bar> < 2 powr (of_int e + 1)"
    using floor_log_eq_powr_iff [of "\<bar>x\<bar>" 2 e] pos by simp
  also have "2 powr (of_int e + 1) = (2::real) powi (e + 1)"
    using two_powr_of_int [of "e + 1"] by simp
  finally show ?thesis
    by (simp only: two_powr_of_int binade_def)
qed

lemma binade_bounds:
  assumes "x \<noteq> 0"
  shows "2 powi binade x \<le> \<bar>x\<bar>" "\<bar>x\<bar> < 2 powi (binade x + 1)"
  using binade_iff [OF assms, of "binade x"] by blast+

lemma binade_eqI:
  assumes "2 powi e \<le> \<bar>x\<bar>" "\<bar>x\<bar> < 2 powi (e + 1)"
  shows "binade x = e"
proof -
  have "(0::real) < 2 powi e" by simp
  with assms(1) have "0 < \<bar>x\<bar>" by linarith
  then have "x \<noteq> 0" by simp
  then show ?thesis
    using binade_iff [of x e] assms by blast
qed

lemma binade_ge:
  assumes "2 powi e \<le> \<bar>x\<bar>"
  shows "e \<le> binade x"
proof -
  have "(0::real) < 2 powi e" by simp
  with assms have "0 < \<bar>x\<bar>" by linarith
  then have "x \<noteq> 0" by simp
  then have b: "\<bar>x\<bar> < 2 powi (binade x + 1)" by (rule binade_bounds)
  show ?thesis
  proof (rule ccontr)
    assume "\<not> e \<le> binade x"
    then have "binade x + 1 \<le> e" by simp
    then have "(2::real) powi (binade x + 1) \<le> 2 powi e"
      by (intro power_int_increasing) simp_all
    with assms b show False by linarith
  qed
qed

lemma round_at_error: "\<bar>round_at e x - x\<bar> \<le> 2 powi e / 2"
proof -
  define y where "y = x / 2 powi e"
  have "round_at e x - x = (of_int (rne y) - y) * 2 powi e"
    by (simp add: round_at_def y_def left_diff_distrib)
  then have "\<bar>round_at e x - x\<bar> = \<bar>of_int (rne y) - y\<bar> * 2 powi e"
    by (simp add: abs_mult)
  also have "\<dots> \<le> 1 / 2 * 2 powi e"
    by (intro mult_right_mono rne_error) simp
  finally show ?thesis by simp
qed

lemma round_to_0 [simp]: "round_to p 0 = 0"
  by (simp add: round_to_def)

lemma round_to_error: "\<bar>round_to p x - x\<bar> \<le> \<bar>x\<bar> / 2 ^ p"
proof (cases "x = 0")
  case True
  then show ?thesis by simp
next
  case False
  have "\<bar>round_to p x - x\<bar> \<le> 2 powi (binade x - int p + 1) / 2"
    using False round_at_error by (simp add: round_to_def)
  also have "\<dots> = 2 powi binade x / 2 ^ p"
    by (simp add: power_int_diff power_int_add)
  also have "\<dots> \<le> \<bar>x\<bar> / 2 ^ p"
    using binade_bounds(1) [OF False] by (simp add: divide_right_mono)
  finally show ?thesis .
qed

lemma round_to_pos: "0 < p \<Longrightarrow> 0 < x \<Longrightarrow> 0 < round_to p x"
proof -
  assume p: "0 < p" and x: "0 < x"
  have "(2::real) ^ 1 \<le> 2 ^ p" using p by (intro power_increasing) simp_all
  then have "\<bar>x\<bar> / 2 ^ p \<le> \<bar>x\<bar> / 2"
    by (intro divide_left_mono) simp_all
  with round_to_error [of p x] x show ?thesis by linarith
qed

lemma round_to_neg: "0 < p \<Longrightarrow> x < 0 \<Longrightarrow> round_to p x < 0"
proof -
  assume p: "0 < p" and x: "x < 0"
  have "(2::real) ^ 1 \<le> 2 ^ p" using p by (intro power_increasing) simp_all
  then have "\<bar>x\<bar> / 2 ^ p \<le> \<bar>x\<bar> / 2"
    by (intro divide_left_mono) simp_all
  with round_to_error [of p x] x show ?thesis by linarith
qed

lemma round_to_sign:
  assumes "0 < p"
  shows "(0 < round_to p x) = (0 < x)" "(round_to p x < 0) = (x < 0)"
    "(round_to p x = 0) = (x = 0)" "(round_to p x \<le> 0) = (x \<le> 0)"
    "(0 \<le> round_to p x) = (0 \<le> x)"
  using round_to_pos [OF assms, of x] round_to_neg [OF assms, of x] round_to_0 [of p]
  by (cases "x = 0"; cases "0 < x"; force)+

lemma round_to_eqI:
  assumes "2 powi e0 \<le> \<bar>x\<bar>" "\<bar>x\<bar> < 2 powi (e0 + 1)"
    and "\<bar>x / 2 powi (e0 - int p + 1) - of_int m\<bar> < 1 / 2"
  shows "round_to p x = of_int m * 2 powi (e0 - int p + 1)"
proof -
  have "(0::real) < 2 powi e0" by simp
  with assms(1) have "0 < \<bar>x\<bar>" by linarith
  then have "x \<noteq> 0" by simp
  then show ?thesis
    using binade_eqI [OF assms(1,2)] rne_eqI [OF assms(3)]
    by (simp add: round_to_def round_at_def)
qed

lemma round_to_exact:
  assumes "2 powi e0 \<le> \<bar>of_int m * 2 powi (e0 - int p + 1) :: real\<bar>"
    "\<bar>of_int m * 2 powi (e0 - int p + 1) :: real\<bar> < 2 powi (e0 + 1)"
  shows "round_to p (of_int m * 2 powi (e0 - int p + 1)) = of_int m * 2 powi (e0 - int p + 1)"
  by (rule round_to_eqI [OF assms]) simp

lemma round_to_1: "0 < p \<Longrightarrow> round_to p 1 = 1"
proof -
  assume p: "0 < p"
  have "(2::real) ^ (p - 1) * 2 powi (1 - int p) = 2 powi (int (p - 1)) * 2 powi (1 - int p)"
    by simp
  also have "\<dots> = 2 powi (int (p - 1) + (1 - int p))"
    by (simp add: power_int_add)
  also have "\<dots> = 1" using p by (simp add: of_nat_diff)
  finally have e: "(2::real) ^ (p - Suc 0) * 2 powi (1 - int p) = 1" by simp
  have "round_to p (of_int (2 ^ (p - 1)) * 2 powi (0 - int p + 1)) =
      of_int (2 ^ (p - 1)) * 2 powi (0 - int p + 1)"
    by (rule round_to_exact) (simp_all add: e)
  then show ?thesis by (simp add: e)
qed

lemma rnd53_sign:
  "(0 < rnd53 x) = (0 < x)" "(rnd53 x < 0) = (x < 0)" "(rnd53 x = 0) = (x = 0)"
  "(rnd53 x \<le> 0) = (x \<le> 0)" "(0 \<le> rnd53 x) = (0 \<le> x)"
  by (simp_all add: rnd53_def round_to_sign)

lemma rnd53_0 [simp]: "rnd53 0 = 0"
  by (simp add: rnd53_def)

lemma rnd53_1 [simp]: "rnd53 1 = 1"
  by (simp add: rnd53_def round_to_1)

lemma rnd53_error: "\<bar>rnd53 x - x\<bar> \<le> \<bar>x\<bar> / 2 ^ 53"
  unfolding rnd53_def by (rule round_to_error)

text \<open>Within the normal range of the format the rounding is the one with a free exponent.\<close>

lemma ieee_round_0 [simp]: "ieee_round p emin emax 0 = Num 0"
  by (simp add: ieee_round_def)

lemma ieee_round_normal:
  assumes "2 powi emin \<le> \<bar>x\<bar>" "\<bar>x\<bar> < 2 powi emax" "0 < p"
  shows "ieee_round p emin emax x = Num (round_to p x)"
proof -
  have "(0::real) < 2 powi emin" by simp
  with assms(1) have "0 < \<bar>x\<bar>" by linarith
  then have x: "x \<noteq> 0" by simp
  have m: "max (binade x) emin = binade x"
    using binade_ge [OF assms(1)] by simp
  have "(2::real) ^ 1 \<le> 2 ^ p" using assms(3) by (intro power_increasing) simp_all
  then have "\<bar>x\<bar> / 2 ^ p \<le> \<bar>x\<bar> / 2"
    by (intro divide_left_mono) simp_all
  then have "\<bar>round_to p x\<bar> \<le> 2 * \<bar>x\<bar>"
    using round_to_error [of p x] by linarith
  also have "\<dots> < 2 * 2 powi emax" using assms(2) by simp
  also have "\<dots> = 2 powi (emax + 1)" by (simp add: power_int_add)
  finally have "\<not> 2 powi (emax + 1) \<le> \<bar>round_to p x\<bar>" by simp
  then show ?thesis
    using x m by (simp add: ieee_round_def round_to_def Let_def)
qed

lemma fl64_normal:
  "2 powi (- 1022) \<le> \<bar>x\<bar> \<Longrightarrow> \<bar>x\<bar> < 2 powi 1023 \<Longrightarrow> fl64 x = Num (rnd53 x)"
  unfolding fl64_def rnd53_def by (rule ieee_round_normal) simp_all

lemma fl64_0 [simp]: "fl64 0 = Num 0"
  by (simp add: fl64_def)

lemma fl32_0 [simp]: "fl32 0 = Num 0"
  by (simp add: fl32_def)

lemma fl64_safe:
  "x = 0 \<or> (2 powi (- 1022) \<le> \<bar>x\<bar> \<and> \<bar>x\<bar> < 2 powi 1023) \<Longrightarrow> fl64 x = Num (rnd53 x)"
  using fl64_normal [of x] by auto

lemma fl64_1 [simp]: "fl64 1 = Num 1"
  using fl64_normal [of 1] by (simp add: power_int_minus)

lemma fl32_1 [simp]: "fl32 1 = Num 1"
proof -
  have "ieee_round 24 (- 126) 127 1 = Num (round_to 24 1)"
    by (rule ieee_round_normal) (simp_all add: power_int_minus)
  then show ?thesis by (simp add: fl32_def round_to_1)
qed

lemma ieee_round_not_NaN [simp]: "ieee_round p emin emax x \<noteq> NaN"
  by (simp add: ieee_round_def Let_def)

lemma fl64_not_NaN [simp]: "fl64 x \<noteq> NaN"
  by (simp add: fl64_def)

text \<open>A finite result is a multiple of the least positive number of the format.\<close>

lemma ieee_round_multiple:
  assumes "ieee_round p emin emax x = Num y"
  shows "\<exists>m::int. y = of_int m * 2 powi (emin - int p + 1)"
proof (cases "x = 0")
  case True
  then have "y = of_int 0 * 2 powi (emin - int p + 1)" using assms by simp
  then show ?thesis by blast
next
  case False
  define e where "e = max (binade x) emin - int p + 1"
  define n where "n = nat (e - (emin - int p + 1))"
  have e: "e = int n + (emin - int p + 1)" by (simp add: e_def n_def)
  define r where "r = rne (x / 2 powi e)"
  have "y = round_at e x"
    using assms False by (simp add: ieee_round_def Let_def e_def split: if_splits)
  then have "y = of_int r * 2 powi e" by (simp add: round_at_def r_def)
  moreover have "(2::real) powi e = 2 ^ n * 2 powi (emin - int p + 1)"
    unfolding e by (simp add: power_int_add)
  ultimately have "y = of_int (r * 2 ^ n) * 2 powi (emin - int p + 1)"
    by simp
  then show ?thesis by blast
qed

lemma fl64_finite_double: "fl64 x = Num y \<Longrightarrow> finite_double (Num y)"
proof -
  assume "fl64 x = Num y"
  then obtain m :: int where "y = of_int m * 2 powi (- 1022 - int 53 + 1)"
    unfolding fl64_def using ieee_round_multiple by blast
  then have "y = of_int m * 2 powi (- 1074)" by simp
  then have "y * 2 ^ 1074 = of_int m" by (simp add: power_int_minus)
  then show ?thesis by simp
qed

lemma fl32_single_range: "fl32 x = Num y \<Longrightarrow> single_range (Num y)"
proof -
  assume a: "fl32 x = Num y"
  then obtain m :: int where "y = of_int m * 2 powi (- 126 - int 24 + 1)"
    unfolding fl32_def using ieee_round_multiple by blast
  then have y: "y = of_int m * 2 powi (- 149)" by simp
  have lo: "2 powi (- 149) \<le> \<bar>y\<bar>" if "y \<noteq> 0"
  proof -
    have "m \<noteq> 0" using that y by auto
    then have "1 \<le> \<bar>of_int m :: real\<bar>" by (simp flip: of_int_abs)
    then have "1 * 2 powi (- 149) \<le> \<bar>of_int m :: real\<bar> * 2 powi (- 149)"
      by (intro mult_right_mono) simp_all
    then show ?thesis by (simp add: y abs_mult)
  qed
  have "\<bar>y\<bar> < 2 powi 128"
    using a by (auto simp: fl32_def ieee_round_def Let_def split: if_splits)
  then show ?thesis using lo by auto
qed

text \<open>From the least positive number of the format on, rounding keeps the sign.\<close>

lemma ieee_round_pos:
  assumes "2 powi (emin - int p + 1) \<le> x" "0 < p"
  shows "sign_of (ieee_round p emin emax x) = 1"
proof -
  have "(0::real) < 2 powi (emin - int p + 1)" by simp
  with assms(1) have x: "0 < x" by linarith
  define e where "e = max (binade x) emin - int p + 1"
  have "2 powi e \<le> x"
  proof (cases "emin \<le> binade x")
    case True
    then have "e \<le> binade x" using assms(2) by (simp add: e_def)
    then have "(2::real) powi e \<le> 2 powi binade x" by (simp add: power_int_increasing)
    also have "\<dots> \<le> \<bar>x\<bar>" using x by (intro binade_bounds) simp
    finally show ?thesis using x by simp
  next
    case False
    then show ?thesis using assms(1) by (simp add: e_def max_def)
  qed
  then have "1 \<le> x / 2 powi e" by (simp add: pos_le_divide_eq)
  then have "1 \<le> rne (x / 2 powi e)" by (rule rne_ge_1)
  then have "(0::real) < of_int (rne (x / 2 powi e)) * 2 powi e" by simp
  then have "0 < round_at e x" by (simp add: round_at_def)
  then show ?thesis
    using x by (simp add: ieee_round_def Let_def e_def)
qed

lemma ieee_round_neg:
  assumes "x \<le> - (2 powi (emin - int p + 1))" "0 < p"
  shows "sign_of (ieee_round p emin emax x) = - 1"
proof -
  have "(0::real) < 2 powi (emin - int p + 1)" by simp
  with assms(1) have x: "x < 0" by linarith
  define e where "e = max (binade x) emin - int p + 1"
  have "2 powi e \<le> - x"
  proof (cases "emin \<le> binade x")
    case True
    then have "e \<le> binade x" using assms(2) by (simp add: e_def)
    then have "(2::real) powi e \<le> 2 powi binade x" by (simp add: power_int_increasing)
    also have "\<dots> \<le> \<bar>x\<bar>" using x by (intro binade_bounds) simp
    finally show ?thesis using x by simp
  next
    case False
    then show ?thesis using assms(1) by (simp add: e_def max_def)
  qed
  then have "x / 2 powi e \<le> - 1" by (simp add: pos_divide_le_eq)
  then have "rne (x / 2 powi e) \<le> - 1" by (rule rne_le_m1)
  then have "of_int (rne (x / 2 powi e)) * 2 powi e < (0::real)"
    by (simp add: mult_less_0_iff)
  then have "round_at e x < 0" by (simp add: round_at_def)
  then show ?thesis
    using x by (auto simp: ieee_round_def Let_def e_def)
qed

lemma fl64_difference_sign:
  assumes "finite_double (Num a)" "finite_double (Num b)"
  shows "sign_of (fl64 (b - a)) = (if b < a then - 1 else if b = a then 0 else 1)"
proof -
  obtain i j :: int where i: "a * 2 ^ 1074 = of_int i" and j: "b * 2 ^ 1074 = of_int j"
    using assms by (auto simp: Ints_def)
  have d: "(b - a) * 2 ^ 1074 = of_int (j - i)" using i j by (simp add: algebra_simps)
  have "(2::real) powi (- 1074) = inverse (2 powi 1074)" by (rule power_int_minus)
  then have e: "(2::real) powi (- 1022 - int 53 + 1) = 1 / 2 ^ 1074"
    by (simp add: inverse_eq_divide)
  show ?thesis
  proof (cases "b < a")
    case True
    then have "(b - a) * 2 ^ 1074 < 0" by (simp add: mult_less_0_iff)
    then have "of_int (j - i) < (0::real)" using d by simp
    then have "j - i < 0" by simp
    then have "j - i \<le> - 1" by simp
    then have "of_int (j - i) \<le> (of_int (- 1) :: real)" by (simp only: of_int_le_iff)
    then have "(b - a) * 2 ^ 1074 \<le> - 1" using d by simp
    then have "b - a \<le> - (1 / 2 ^ 1074)" by (simp add: field_simps)
    then have "b - a \<le> - (2 powi (- 1022 - int 53 + 1))" unfolding e .
    then have "sign_of (ieee_round 53 (- 1022) 1023 (b - a)) = - 1"
      by (rule ieee_round_neg) simp
    then show ?thesis using True by (simp add: fl64_def)
  next
    case False
    show ?thesis
    proof (cases "b = a")
      case True
      then show ?thesis by simp
    next
      case ne: False
      then have lt: "a < b" using False by simp
      then have "0 < (b - a) * 2 ^ 1074" by simp
      then have "(0::real) < of_int (j - i)" using d by simp
      then have "0 < j - i" by simp
      then have "1 \<le> j - i" by simp
      then have "(of_int 1 :: real) \<le> of_int (j - i)" by (simp only: of_int_le_iff)
      then have "1 \<le> (b - a) * 2 ^ 1074" using d by simp
      then have "1 / 2 ^ 1074 \<le> b - a" by (simp add: field_simps)
      then have "2 powi (- 1022 - int 53 + 1) \<le> b - a" unfolding e .
      then have "sign_of (ieee_round 53 (- 1022) 1023 (b - a)) = 1"
        by (rule ieee_round_pos) simp
      then show ?thesis using lt ne by (simp add: fl64_def)
    qed
  qed
qed

section \<open>The reference cosine routine\<close>

lemma cosine_loop_folds:
  "i \<le> length q \<Longrightarrow> length v = length q \<Longrightarrow>
   cosine_loop q v i (d, qm, vm) =
     (foldl (\<lambda>acc (x, y). js_add acc (js_mul x y)) d (zip (drop i q) (drop i v)),
      foldl (\<lambda>acc (x, y). js_add acc (js_mul x y)) qm (zip (drop i q) (drop i q)),
      foldl (\<lambda>acc (x, y). js_add acc (js_mul x y)) vm (zip (drop i v) (drop i v)))"
proof (induction q v i "(d, qm, vm)" arbitrary: d qm vm rule: cosine_loop.induct)
  case (1 q v i d qm vm)
  show ?case
  proof (cases "i < length q")
    case True
    then have dq: "drop i q = q ! i # drop (Suc i) q" and dv: "drop i v = v ! i # drop (Suc i) v"
      using "1.prems" by (simp_all add: Cons_nth_drop_Suc)
    have "cosine_loop q v i (d, qm, vm) =
        cosine_loop q v (i + 1)
             (js_add d (js_mul (q ! i) (numOf (elem_at v i))),
              js_add qm (js_mul (q ! i) (q ! i)),
              js_add vm (js_mul (numOf (elem_at v i)) (numOf (elem_at v i))))"
      using True by simp
    also have "\<dots> =
      (foldl (\<lambda>acc (x, y). js_add acc (js_mul x y)) (js_add d (js_mul (q ! i) (numOf (elem_at v i))))
         (zip (drop (i + 1) q) (drop (i + 1) v)),
       foldl (\<lambda>acc (x, y). js_add acc (js_mul x y)) (js_add qm (js_mul (q ! i) (q ! i)))
         (zip (drop (i + 1) q) (drop (i + 1) q)),
       foldl (\<lambda>acc (x, y). js_add acc (js_mul x y))
         (js_add vm (js_mul (numOf (elem_at v i)) (numOf (elem_at v i))))
         (zip (drop (i + 1) v) (drop (i + 1) v)))"
      using True "1.prems" by (intro "1.hyps") simp_all
    finally show ?thesis
      using True "1.prems" by (simp add: dq dv elem_at_def)
  next
    case False
    then show ?thesis using "1.prems" by simp
  qed
qed

lemma cosine_spec: "length b = length a \<Longrightarrow> cosine a b = spec_similarity a b"
  using cosine_loop_folds [of 0 a b "Num 0" "Num 0" "Num 0"]
  by (simp add: cosine_def spec_similarity_def magnitude_def dot_def Let_def)

lemma dot_zero: "dot (replicate n (Num 0)) (replicate n (Num 0)) = Num 0"
proof -
  have "foldl (\<lambda>acc (x, y). js_add acc (js_mul x y)) (Num 0)
      (replicate n (Num 0, Num 0)) = Num 0"
    by (induction n) simp_all
  then show ?thesis by (simp add: dot_def zip_replicate)
qed

lemma magnitude_zero: "magnitude (replicate n (Num 0)) = Num 0"
  by (simp add: magnitude_def dot_zero)

text \<open>
  Claim C6. For vectors of equal length the reference routine computes the similarity
  of the specification: the dot product divided by the product of the magnitudes when
  both magnitudes are non-zero, and exactly 0 when either magnitude is zero. The
  similarity of any vector (even one holding \<open>NaN\<close>) with the zero vector is 0.
\<close>

theorem cosine_matches_definition:
  "length b = length a \<longrightarrow>
     cosine a b = spec_similarity a b \<and>
     (magnitude a \<noteq> Num 0 \<and> magnitude b \<noteq> Num 0 \<longrightarrow>
        cosine a b = js_div (dot a b) (js_mul (magnitude a) (magnitude b))) \<and>
     (magnitude a = Num 0 \<or> magnitude b = Num 0 \<longrightarrow> cosine a b = Num 0) \<and>
     cosine a (replicate (length a) (Num 0)) = Num 0 \<and>
     cosine (replicate (length a) (Num 0)) a = Num 0"
proof
  assume l: "length b = length a"
  have "cosine a (replicate (length a) (Num 0)) = Num 0"
    "cosine (replicate (length a) (Num 0)) a = Num 0"
    by (simp_all add: cosine_spec spec_similarity_def magnitude_zero)
  then show "cosine a b = spec_similarity a b \<and>
     (magnitude a \<noteq> Num 0 \<and> magnitude b \<noteq> Num 0 \<longrightarrow>
        cosine a b = js_div (dot a b) (js_mul (magnitude a) (magnitude b))) \<and>
     (magnitude a = Num 0 \<or> magnitude b = Num 0 \<longrightarrow> cosine a b = Num 0) \<and>
     cosine a (replicate (length a) (Num 0)) = Num 0 \<and>
     cosine (replicate (length a) (Num 0)) a = Num 0"
    using l by (simp add: cosine_spec spec_similarity_def)
qed

lemma dot_unit: "dot [Num 1, Num 0] [Num 1, Num 0] = Num 1"
  by (simp add: dot_def)

theorem cosine_matches_definition_witness:
  "length [Num 1, Num 0] = length [Num 1, Num 0] \<and>
   magnitude [Num 1, Num 0] \<noteq> Num 0 \<and>
   cosine [Num 1, Num 0] [Num 1, Num 0] = Num 1 \<and>
   length [Num 0, Num 0] = length [Num 1, Num 0] \<and>
   magnitude [Num 0, Num 0] = Num 0 \<and>
   cosine [Num 1, Num 0] [Num 0, Num 0] = Num 0"
proof -
  have m1: "magnitude [Num 1, Num 0] = Num 1"
    by (simp add: magnitude_def dot_unit)
  have m0: "magnitude [Num 0, Num 0] = Num 0"
    using magnitude_zero [of 2] by (simp add: numeral_2_eq_2)
  show ?thesis
    using cosine_matches_definition [of "[Num 1, Num 0]" "[Num 1, Num 0]"]
      cosine_matches_definition [of "[Num 0, Num 0]" "[Num 1, Num 0]"]
    by (auto simp: m1 m0 dot_unit)
qed

section \<open>Sorting\<close>

lemma set_sort_insert: "set (sort_insert c x ys) = insert x (set ys)"
  by (induction ys) auto

lemma length_sort_insert: "length (sort_insert c x ys) = Suc (length ys)"
  by (induction ys) auto

lemma insertion_sort_Cons: "insertion_sort c (x # xs) = sort_insert c x (insertion_sort c xs)"
  by (simp add: insertion_sort_def)

lemma insertion_sort_Nil: "insertion_sort c [] = []"
  by (simp add: insertion_sort_def)

lemma set_insertion_sort: "set (insertion_sort c xs) = set xs"
  by (induction xs) (simp_all add: insertion_sort_Nil insertion_sort_Cons set_sort_insert)

lemma length_insertion_sort: "length (insertion_sort c xs) = length xs"
  by (induction xs) (simp_all add: insertion_sort_Nil insertion_sort_Cons length_sort_insert)

lemma distinct_sort_insert: "distinct ys \<Longrightarrow> x \<notin> set ys \<Longrightarrow> distinct (sort_insert c x ys)"
  by (induction ys) (auto simp: set_sort_insert)

lemma distinct_insertion_sort: "distinct xs \<Longrightarrow> distinct (insertion_sort c xs)"
  by (induction xs)
    (simp_all add: insertion_sort_Nil insertion_sort_Cons distinct_sort_insert
      set_insertion_sort)

text \<open>Whatever the engine does, the result is a permutation.\<close>

lemma positions:
  assumes "sort p = [0..<n]"
  shows "set p = {0..<n}" "length p = n" "distinct p"
proof -
  show "set p = {0..<n}" using assms by (metis set_sort set_upt)
  show "length p = n" using assms by (metis length_sort length_upt diff_zero)
  show "distinct p" using assms by (metis distinct_sort distinct_upt)
qed

lemma set_by_positions:
  assumes "sort p = [0..<length xs]"
  shows "set (map (\<lambda>i. xs ! i) p) = set xs"
proof -
  have "set (map (\<lambda>i. xs ! i) p) = (\<lambda>i. xs ! i) ` {0..<length xs}"
    using positions(1) [OF assms] by simp
  also have "\<dots> = set xs"
    by (metis map_nth set_map set_upt)
  finally show ?thesis .
qed

lemma distinct_by_positions:
  assumes "sort p = [0..<length xs]" "distinct xs"
  shows "distinct (map (\<lambda>i. xs ! i) p)"
proof -
  have "inj_on (\<lambda>i. xs ! i) (set p)"
    using positions(1) [OF assms(1)] assms(2)
    by (auto simp: inj_on_def nth_eq_iff_index_eq)
  then show ?thesis
    using positions(3) [OF assms(1)] by (simp add: distinct_map)
qed

lemma set_js_sort: "set (js_sort e c xs) = set xs"
proof (cases "consistent c xs")
  case True
  then show ?thesis by (simp add: js_sort_def set_insertion_sort)
next
  case False
  show ?thesis
  proof (cases "sort (e xs) = [0..<length xs]")
    case True
    have "js_sort e c xs = map (\<lambda>i. xs ! i) (e xs)"
      using True \<open>\<not> consistent c xs\<close> by (simp add: js_sort_def)
    then show ?thesis using set_by_positions [OF True] by simp
  next
    case False
    then show ?thesis using \<open>\<not> consistent c xs\<close> by (simp add: js_sort_def)
  qed
qed

lemma length_js_sort: "length (js_sort e c xs) = length xs"
  using positions(2) [of "e xs" "length xs"]
  by (simp add: js_sort_def length_insertion_sort)

lemma distinct_js_sort: "distinct xs \<Longrightarrow> distinct (js_sort e c xs)"
  by (simp add: js_sort_def distinct_insertion_sort distinct_by_positions)

text \<open>Sorting the images of a list is sorting the list by the images.\<close>

lemma sort_insert_map:
  "sort_insert c (f x) (map f ys) = map f (sort_insert (\<lambda>a b. c (f a) (f b)) x ys)"
  by (induction ys) (simp_all add: sortCompare_def)

lemma insertion_sort_map:
  "insertion_sort c (map f xs) = map f (insertion_sort (\<lambda>a b. c (f a) (f b)) xs)"
  by (induction xs) (simp_all add: insertion_sort_Nil insertion_sort_Cons sort_insert_map)

lemma consistent_map: "consistent c (map f xs) = consistent (\<lambda>a b. c (f a) (f b)) xs"
  by (simp add: consistent_def sortCompare_def list.pred_map comp_def)

lemma js_sort_map:
  "js_sort e c (map f xs) =
     map f (js_sort (\<lambda>ys. e (map f ys)) (\<lambda>a b. c (f a) (f b)) xs)"
proof -
  have "map (\<lambda>i. map f xs ! i) p = map f (map (\<lambda>i. xs ! i) p)"
    if "sort p = [0..<length xs]" for p
    using positions(1) [OF that] by simp
  then show ?thesis
    by (simp add: js_sort_def consistent_map insertion_sort_map)
qed

text \<open>
  When the comparison of two positions is the sign of the difference of two real
  scores, it is consistent, and the sort ranks by score, equal scores in the order of
  the positions.
\<close>

lemma consistent_by_score:
  fixes score :: "'a \<Rightarrow> real"
  assumes "\<And>x y. x \<in> set xs \<Longrightarrow> y \<in> set xs \<Longrightarrow> c x y \<noteq> NaN \<and>
     sortCompare c x y = (if score y < score x then - 1 else if score y = score x then 0 else 1)"
  shows "consistent c xs"
  unfolding consistent_def list_all_iff
  by (intro ballI conjI impI; (simp add: assms split: if_splits)?)

lemma sorted_sort_insert:
  fixes score :: "nat \<Rightarrow> real"
  assumes c: "\<And>y. y \<in> set ys \<Longrightarrow>
      sortCompare c x y = (if score y < score x then - 1 else if score y = score x then 0 else 1)"
    and s: "sorted_wrt (\<lambda>i j. outranks (Num (score i)) i (Num (score j)) j) ys"
    and lt: "\<And>y. y \<in> set ys \<Longrightarrow> x < y"
  shows "sorted_wrt (\<lambda>i j. outranks (Num (score i)) i (Num (score j)) j) (sort_insert c x ys)"
  using assms
proof (induction ys)
  case Nil
  then show ?case by simp
next
  case (Cons y ys)
  have cmp: "sortCompare c x y \<le> 0 \<longleftrightarrow> score y \<le> score x"
    using Cons.prems(1) [of y] by simp
  show ?case
  proof (cases "score y \<le> score x")
    case True
    have "outranks (Num (score x)) x (Num (score z)) z" if "z \<in> set (y # ys)" for z
    proof -
      have "x < z" using Cons.prems(3) that by blast
      moreover have "score z \<le> score y" using that Cons.prems(2) by auto
      ultimately show ?thesis using True by auto
    qed
    then show ?thesis using True cmp Cons.prems(2) by simp
  next
    case False
    have "sorted_wrt (\<lambda>i j. outranks (Num (score i)) i (Num (score j)) j) (sort_insert c x ys)"
      using Cons.prems by (intro Cons.IH) simp_all
    then show ?thesis using False cmp Cons.prems(2)
      by (auto simp: set_sort_insert)
  qed
qed

lemma sorted_insertion_sort:
  fixes score :: "nat \<Rightarrow> real"
  assumes c: "\<And>x y. x \<in> set xs \<Longrightarrow> y \<in> set xs \<Longrightarrow>
      sortCompare c x y = (if score y < score x then - 1 else if score y = score x then 0 else 1)"
    and inc: "sorted_wrt (<) xs"
  shows "sorted_wrt (\<lambda>i j. outranks (Num (score i)) i (Num (score j)) j) (insertion_sort c xs)"
  using assms
proof (induction xs)
  case Nil
  show ?case by (simp add: insertion_sort_Nil)
next
  case (Cons x xs)
  have "sorted_wrt (\<lambda>i j. outranks (Num (score i)) i (Num (score j)) j) (insertion_sort c xs)"
    using Cons.prems by (intro Cons.IH) simp_all
  then show ?case
    unfolding insertion_sort_Cons using Cons.prems
    by (intro sorted_sort_insert) (simp_all add: set_insertion_sort)
qed

lemma sorted_js_sort:
  fixes score :: "nat \<Rightarrow> real"
  assumes c: "\<And>x y. x \<in> set xs \<Longrightarrow> y \<in> set xs \<Longrightarrow> c x y \<noteq> NaN \<and>
      sortCompare c x y = (if score y < score x then - 1 else if score y = score x then 0 else 1)"
    and inc: "sorted_wrt (<) xs"
  shows "sorted_wrt (\<lambda>i j. outranks (Num (score i)) i (Num (score j)) j) (js_sort e c xs)"
proof -
  have "consistent c xs" using c by (rule consistent_by_score)
  then show ?thesis
    using sorted_insertion_sort [of xs c score] c inc by (simp add: js_sort_def)
qed

lemma sorted_wrt_take: "sorted_wrt P xs \<Longrightarrow> sorted_wrt P (take k xs)"
  by (metis append_take_drop_id sorted_wrt_append)

section \<open>Ranking\<close>

lemma js_sort_Nil: "js_sort e c [] = []"
  by (simp add: js_sort_def consistent_def insertion_sort_Nil)

lemma zip_upt: "zip xs [0..<length xs] = map (\<lambda>i. (xs ! i, i)) [0..<length xs]"
  by (rule nth_equalityI) simp_all

lemma results_of_map:
  "results_of (patterns s) sims =
     map (\<lambda>i. result_at s i (elem_at sims i)) [0..<length (patterns s)]"
  by (simp add: results_of_def zip_upt result_at_def)

lemma findSimilar_map:
  assumes "length (vectors s) = length (patterns s)"
  shows "findSimilar engine s q k =
     map (\<lambda>i. result_at s i (elem_at (similarities_of s (Float32Array_from (patternToVector q))) i))
       (take k (js_sort
          (\<lambda>is. engine (map (\<lambda>i. result_at s i
             (elem_at (similarities_of s (Float32Array_from (patternToVector q))) i)) is))
          (\<lambda>a b. by_similarity
             (result_at s a (elem_at (similarities_of s (Float32Array_from (patternToVector q))) a))
             (result_at s b (elem_at (similarities_of s (Float32Array_from (patternToVector q))) b)))
          (filter (\<lambda>i. success (patterns s ! i)) [0..<length (patterns s)])))"
proof (cases "vectors s = []")
  case True
  then have "patterns s = []" using assms by simp
  then show ?thesis using True by (simp add: findSimilar_def js_sort_Nil)
next
  case False
  have f: "filter res_success (map (\<lambda>i. result_at s i (g i)) xs) =
      map (\<lambda>i. result_at s i (g i)) (filter (\<lambda>i. success (patterns s ! i)) xs)" for g xs
    by (simp add: filter_map comp_def result_at_def)
  show ?thesis
    using False
    by (simp add: findSimilar_def Let_def results_of_map f js_sort_map take_map)
qed

lemma sorted_wrt_less_upt: "sorted_wrt (<) [0..<n]"
  by (simp add: sorted_wrt_iff_nth_less)

text \<open>
  Where the scores come from: the reference routine, or a call of the backend's
  \<^verbatim>\<open>batchSimilarity\<close> that returned.
\<close>

lemma similarities_source:
  "similarities_of (run imp ops) qv = manualCosineSimilarity qv (vectors (run imp ops)) \<or>
   (\<exists>bs. imp = Loaded bs \<and>
      bs qv (vectors (run imp ops)) = Returns (similarities_of (run imp ops) qv))"
proof (cases imp)
  case (Loaded bs)
  then show ?thesis
    by (cases "bs qv (vectors (run imp ops))")
      (simp_all add: similarities_of_def run_vectorSearch run_initialized)
next
  case (Failed vs rf sl)
  then show ?thesis
    by (simp add: similarities_of_def run_vectorSearch run_initialized split: option.splits)
qed

lemma length_filter_upt:
  "length (filter (\<lambda>i. P (xs ! i)) [0..<length xs]) = length (filter P xs)"
proof -
  have "filter P xs = filter P (map (\<lambda>i. xs ! i) [0..<length xs])"
    by (simp add: map_nth)
  also have "\<dots> = map (\<lambda>i. xs ! i) (filter (\<lambda>i. P (xs ! i)) [0..<length xs])"
    by (simp add: filter_map comp_def)
  finally show ?thesis by (metis length_map)
qed

lemma by_similarity_sign:
  assumes "finite_double (numOf a)" "finite_double (numOf b)"
  shows "js_sub (numOf b) (numOf a) \<noteq> NaN \<and>
     sign_of (js_sub (numOf b) (numOf a)) =
       (if the_real (numOf b) < the_real (numOf a) then - 1
        else if the_real (numOf b) = the_real (numOf a) then 0 else 1)"
proof -
  obtain x where x: "numOf a = Num x" using assms(1) by (cases "numOf a") simp_all
  obtain y where y: "numOf b = Num y" using assms(2) by (cases "numOf b") simp_all
  have "js_sub (Num y) (Num x) = fl64 (y - x)" by (simp add: js_sub_def)
  then show ?thesis
    using fl64_difference_sign [of x y] assms by (simp add: x y)
qed

lemma findSimilar_indices:
  "\<exists>is. findSimilar engine (run imp ops) q k =
          map (\<lambda>i. result_at (run imp ops) i
                 (elem_at (similarities_of (run imp ops) (Float32Array_from (patternToVector q))) i)) is \<and>
        length is = min k (length (filter (\<lambda>e. 0 < outcome e) (patterns (run imp ops)))) \<and>
        distinct is \<and>
        (\<forall>i\<in>set is. i < length (patterns (run imp ops)) \<and>
                     0 < outcome (patterns (run imp ops) ! i)) \<and>
        (similarities_of (run imp ops) (Float32Array_from (patternToVector q)) =
           manualCosineSimilarity (Float32Array_from (patternToVector q)) (vectors (run imp ops)) \<or>
         (\<exists>bs. imp = Loaded bs \<and>
            bs (Float32Array_from (patternToVector q)) (vectors (run imp ops)) =
              Returns (similarities_of (run imp ops) (Float32Array_from (patternToVector q))))) \<and>
        ((\<forall>i<length (patterns (run imp ops)). 0 < outcome (patterns (run imp ops) ! i) \<longrightarrow>
            finite_double (numOf (elem_at
              (similarities_of (run imp ops) (Float32Array_from (patternToVector q))) i))) \<longrightarrow>
         sorted_wrt (\<lambda>i j. outranks
             (numOf (elem_at (similarities_of (run imp ops) (Float32Array_from (patternToVector q))) i)) i
             (numOf (elem_at (similarities_of (run imp ops) (Float32Array_from (patternToVector q))) j)) j)
           is)"
proof -
  define s where "s = run imp ops"
  define qv where "qv = Float32Array_from (patternToVector q)"
  define n where "n = length (patterns s)"
  define sc where "sc = (\<lambda>i. elem_at (similarities_of s qv) i)"
  define f where "f = (\<lambda>i. result_at s i (sc i))"
  define c where "c = (\<lambda>a b. by_similarity (f a) (f b))"
  define cand where "cand = filter (\<lambda>i. success (patterns s ! i)) [0..<n]"
  define js where "js = take k (js_sort (\<lambda>is. engine (map f is)) c cand)"
  have len: "length (vectors s) = n"
    by (simp add: s_def n_def run_vectors)
  have inv: "success e = (0 < outcome e)" if "e \<in> set (patterns s)" for e
    using that run_entries unfolding s_def by blast
  have r: "findSimilar engine s q k = map f js"
    using findSimilar_map [of s engine q k] len
    by (simp add: js_def c_def f_def cand_def qv_def n_def sc_def)
  have cand_set: "i < n \<and> 0 < outcome (patterns s ! i)" if "i \<in> set cand" for i
    using that inv [of "patterns s ! i"] by (auto simp: cand_def n_def)
  have "set js \<subseteq> set cand"
    unfolding js_def
    using set_take_subset [of k "js_sort (\<lambda>is. engine (map f is)) c cand"]
    by (simp add: set_js_sort)
  then have mem: "\<forall>i\<in>set js. i < n \<and> 0 < outcome (patterns s ! i)"
    using cand_set by blast
  have "filter (\<lambda>i. success (patterns s ! i)) [0..<n] =
      filter (\<lambda>i. 0 < outcome (patterns s ! i)) [0..<n]"
    by (rule filter_cong) (auto simp: inv n_def)
  then have "length cand = length (filter (\<lambda>e. 0 < outcome e) (patterns s))"
    unfolding cand_def n_def
    using length_filter_upt [of "\<lambda>e. 0 < outcome e" "patterns s"] by simp
  then have l: "length js = min k (length (filter (\<lambda>e. 0 < outcome e) (patterns s)))"
    by (simp add: js_def length_js_sort min.commute)
  have d: "distinct js"
    by (simp add: js_def cand_def distinct_js_sort)
  have ranked: "sorted_wrt (\<lambda>i j. outranks (numOf (sc i)) i (numOf (sc j)) j) js"
    if fin: "\<forall>i<n. 0 < outcome (patterns s ! i) \<longrightarrow> finite_double (numOf (sc i))"
  proof -
    define score where "score = (\<lambda>i. the_real (numOf (sc i)))"
    have fd: "finite_double (numOf (sc i))" if "i \<in> set cand" for i
      using fin cand_set [OF that] by blast
    have num: "numOf (sc i) = Num (score i)" if "i \<in> set cand" for i
      using fd [OF that] by (cases "numOf (sc i)") (simp_all add: score_def)
    have cmp: "c a b \<noteq> NaN \<and>
        sortCompare c a b = (if score b < score a then - 1 else if score b = score a then 0 else 1)"
      if "a \<in> set cand" "b \<in> set cand" for a b
      using by_similarity_sign [OF fd [OF that(1)] fd [OF that(2)]]
      by (simp add: c_def f_def by_similarity_def result_at_def sortCompare_def score_def)
    have "sorted_wrt (<) cand"
      unfolding cand_def by (intro sorted_wrt_filter sorted_wrt_less_upt)
    then have "sorted_wrt (\<lambda>i j. outranks (Num (score i)) i (Num (score j)) j)
        (js_sort (\<lambda>is. engine (map f is)) c cand)"
      using cmp by (intro sorted_js_sort) simp_all
    then have "sorted_wrt (\<lambda>i j. outranks (Num (score i)) i (Num (score j)) j) js"
      unfolding js_def by (rule sorted_wrt_take)
    then show ?thesis
    proof (rule sorted_wrt_mono_rel [rotated])
      fix x y
      assume "x \<in> set js" "y \<in> set js" and o: "outranks (Num (score x)) x (Num (score y)) y"
      then have "x \<in> set cand" "y \<in> set cand" using \<open>set js \<subseteq> set cand\<close> by blast+
      then have "numOf (sc x) = Num (score x)" "numOf (sc y) = Num (score y)"
        using num by blast+
      then show "outranks (numOf (sc x)) x (numOf (sc y)) y" using o by simp
    qed
  qed
  have src: "similarities_of s qv = manualCosineSimilarity qv (vectors s) \<or>
      (\<exists>bs. imp = Loaded bs \<and> bs qv (vectors s) = Returns (similarities_of s qv))"
    unfolding s_def by (rule similarities_source)
  have r': "findSimilar engine s q k = map (\<lambda>i. result_at s i (sc i)) js"
    using r by (simp add: f_def)
  have ranked': "(\<forall>i<n. 0 < outcome (patterns s ! i) \<longrightarrow> finite_double (numOf (sc i))) \<longrightarrow>
      sorted_wrt (\<lambda>i j. outranks (numOf (sc i)) i (numOf (sc j)) j) js"
    using ranked by blast
  have "\<exists>is. findSimilar engine s q k = map (\<lambda>i. result_at s i (sc i)) is \<and>
      length is = min k (length (filter (\<lambda>e. 0 < outcome e) (patterns s))) \<and>
      distinct is \<and>
      (\<forall>i\<in>set is. i < n \<and> 0 < outcome (patterns s ! i)) \<and>
      (similarities_of s qv = manualCosineSimilarity qv (vectors s) \<or>
       (\<exists>bs. imp = Loaded bs \<and> bs qv (vectors s) = Returns (similarities_of s qv))) \<and>
      ((\<forall>i<n. 0 < outcome (patterns s ! i) \<longrightarrow> finite_double (numOf (sc i))) \<longrightarrow>
        sorted_wrt (\<lambda>i j. outranks (numOf (sc i)) i (numOf (sc j)) j) is)"
    by (intro exI [of _ js] conjI r' l d mem src ranked')
  then show ?thesis
    unfolding sc_def n_def qv_def s_def .
qed


section \<open>Evaluation at concrete stores\<close>

lemma length_Float32Array_from: "length (Float32Array_from xs) = length xs"
  by (simp add: Float32Array_from_def)

lemma replicate_128: "replicate 128 x = [x, x, x, x, x, x, x, x] @ replicate 120 x"
proof -
  have "replicate 128 x = replicate (8 + 120) x" by simp
  also have "\<dots> = replicate 8 x @ replicate 120 x" by (simp only: replicate_add)
  also have "replicate 8 x = [x, x, x, x, x, x, x, x]" by (simp add: numeral_eq_Suc)
  finally show ?thesis .
qed

lemma patternToVector_shape:
  "patternToVector p =
     [js_div (toNumber (price p)) (Num 1000), js_div (toNumber (volume p)) (Num 10000),
      or_zero (momentum p), js_div (toNumber (cash p)) (Num 100000), or_zero (positions p),
      if action p = Some ''buy'' then Num 1 else Num 0,
      if action p = Some ''sell'' then Num 1 else Num 0,
      if action p = Some ''hold'' then Num 1 else Num 0] @ replicate 120 (Num 0)"
  by (simp add: patternToVector_def Let_def indexOf_actions replicate_128 list_update_append
      numeral_eq_Suc)

lemma vector_buy:
  "Float32Array_from (patternToVector buy_pattern) =
     [Num 0, Num 0, Num 0, Num 0, Num 0, Num 1, Num 0, Num 0] @ replicate 120 (Num 0)"
  by (simp add: patternToVector_shape Float32Array_from_def buy_pattern_def)

lemma vector_sell:
  "Float32Array_from (patternToVector sell_pattern) =
     [Num 0, Num 0, Num 0, Num 0, Num 0, Num 0, Num 1, Num 0] @ replicate 120 (Num 0)"
  by (simp add: patternToVector_shape Float32Array_from_def sell_pattern_def)

lemma vector_verification:
  "Float32Array_from (patternToVector verification_pattern) =
     [NaN, NaN, Num 0, NaN, Num 0, Num 0, Num 0, Num 0] @ replicate 120 (Num 0)"
  by (simp add: patternToVector_shape Float32Array_from_def verification_pattern_def)

lemma foldl_zeros:
  "acc = Num 0 \<or> acc = Num 1 \<or> acc = NaN \<Longrightarrow>
   foldl (\<lambda>acc (x, y). js_add acc (js_mul x y)) acc (replicate n (Num 0, Num 0)) = acc"
  by (induction n) auto

lemma dot_padded:
  assumes "length xs = length ys"
    and "dot xs ys = Num 0 \<or> dot xs ys = Num 1 \<or> dot xs ys = NaN"
  shows "dot (xs @ replicate n (Num 0)) (ys @ replicate n (Num 0)) = dot xs ys"
  using assms foldl_zeros [of "dot xs ys" n]
  by (simp add: dot_def zip_replicate)

lemma dots:
  "dot (Float32Array_from (patternToVector sell_pattern))
       (Float32Array_from (patternToVector sell_pattern)) = Num 1"
  "dot (Float32Array_from (patternToVector buy_pattern))
       (Float32Array_from (patternToVector buy_pattern)) = Num 1"
  "dot (Float32Array_from (patternToVector sell_pattern))
       (Float32Array_from (patternToVector buy_pattern)) = Num 0"
  "dot (Float32Array_from (patternToVector verification_pattern))
       (Float32Array_from (patternToVector verification_pattern)) = NaN"
  "dot (Float32Array_from (patternToVector sell_pattern))
       (Float32Array_from (patternToVector verification_pattern)) = NaN"
  unfolding vector_buy vector_sell vector_verification
  by (subst dot_padded; simp add: dot_def)+


lemma storePattern_fallback:
  "causalGraph s = None \<Longrightarrow> \<not> initialized s \<Longrightarrow>
   snd (storePattern env s pat outc) =
     s\<lparr>vectors := vectors s @ [Float32Array_from (patternToVector pat)],
       patterns := patterns s @
         [\<lparr>pattern = pat, outcome = outc, timestamp = now env, success = (0 < outc),
           entry_action = action pat, entry_id = length (patterns s), skillId = None\<rparr>]\<rparr>"
  by (simp add: storePattern_def Let_def)


lemma trading_store_eq:
  "trading_store =
     \<lparr>initialized = False, vectorSearch = None, skillLibrary = False, reflexion = False,
      causalGraph = None,
      patterns =
        [\<lparr>pattern = buy_pattern, outcome = 10, timestamp = 0, success = True,
          entry_action = Some ''buy'', entry_id = 0, skillId = None\<rparr>,
         \<lparr>pattern = sell_pattern, outcome = 20, timestamp = 0, success = True,
          entry_action = Some ''sell'', entry_id = 1, skillId = None\<rparr>],
      vectors =
        [Float32Array_from (patternToVector buy_pattern),
         Float32Array_from (patternToVector sell_pattern)]\<rparr>"
  by (simp add: trading_store_def run_def fallback_def storePattern_fallback quiet_env_def
      buy_pattern_def sell_pattern_def)






section \<open>The reference routine within the range of single precision\<close>

text \<open>
  On vectors of finite single-precision numbers no operation of the routine leaves the
  normal range of doubles: a non-zero product of two elements lies between
  \<open>2 powi -298\<close> and \<open>2 powi 256\<close>, every rounded product and every partial sum is a
  multiple of \<open>2 powi -350\<close>, and a sum of up to \<open>2 ^ 32\<close> products stays below
  \<open>2 powi 290\<close>. So every operation is the rounding \<open>rnd53\<close> of its exact result.
\<close>

lemma rnd53_abs_upper: "\<bar>rnd53 x\<bar> \<le> \<bar>x\<bar> * (1 + 1 / 2 ^ 53)"
proof -
  have "\<bar>x\<bar> * (1 + 1 / 2 ^ 53) = \<bar>x\<bar> + \<bar>x\<bar> / 2 ^ 53" by (simp add: algebra_simps)
  then show ?thesis using rnd53_error [of x] by linarith
qed

lemma rnd53_abs_le2: "\<bar>rnd53 x\<bar> \<le> 2 * \<bar>x\<bar>"
proof -
  have "\<bar>x\<bar> / 2 ^ 53 \<le> \<bar>x\<bar> / 1" by (intro divide_left_mono) simp_all
  then have "\<bar>x\<bar> / 2 ^ 53 \<le> \<bar>x\<bar>" by simp
  then show ?thesis using rnd53_error [of x] by linarith
qed

lemma rnd53_abs_ge_half: "\<bar>x\<bar> / 2 \<le> \<bar>rnd53 x\<bar>"
proof -
  have "\<bar>x\<bar> / 2 ^ 53 \<le> \<bar>x\<bar> / 2" by (intro divide_left_mono) simp_all
  then show ?thesis using rnd53_error [of x] by linarith
qed

lemma round_at_grid:
  assumes "k \<le> e"
  shows "\<exists>m::int. round_at e x = of_int m * 2 powi k"
proof -
  define n where "n = nat (e - k)"
  have e: "e = int n + k" using assms by (simp add: n_def)
  have "(2::real) powi e = 2 ^ n * 2 powi k"
    unfolding e by (simp add: power_int_add)
  then have "round_at e x = of_int (rne (x / 2 powi e) * 2 ^ n) * 2 powi k"
    by (simp add: round_at_def)
  then show ?thesis by blast
qed

lemma round_to_grid:
  assumes "x = of_int m * 2 powi k"
  shows "\<exists>m'::int. round_to p x = of_int m' * 2 powi k"
proof (cases "x = 0")
  case True
  then have "round_to p x = of_int 0 * 2 powi k" by simp
  then show ?thesis by blast
next
  case False
  define e where "e = binade x - int p + 1"
  have r: "round_to p x = round_at e x" using False by (simp add: round_to_def e_def)
  show ?thesis
  proof (cases "k \<le> e")
    case True
    then show ?thesis unfolding r by (rule round_at_grid)
  next
    case False
    define n where "n = nat (k - e)"
    have k: "k = int n + e" using False by (simp add: n_def)
    have p: "(2::real) powi k = 2 ^ n * 2 powi e"
      unfolding k by (simp add: power_int_add)
    have "x / 2 powi e = of_int m * 2 ^ n"
      unfolding assms p by simp
    also have "\<dots> = of_int (m * 2 ^ n)" by simp
    finally have "rne (x / 2 powi e) = m * 2 ^ n" by (simp only: rne_of_int)
    then have "round_at e x = of_int (m * 2 ^ n) * 2 powi e" by (simp add: round_at_def)
    also have "\<dots> = of_int m * 2 powi k" unfolding p by simp
    finally show ?thesis unfolding r by blast
  qed
qed

lemma round_to_grid_above:
  assumes "2 powi (k + int p - 1) \<le> \<bar>x\<bar>"
  shows "\<exists>m::int. round_to p x = of_int m * 2 powi k"
proof -
  have "(0::real) < 2 powi (k + int p - 1)" by simp
  with assms have "0 < \<bar>x\<bar>" by linarith
  then have x: "x \<noteq> 0" by simp
  have "k + int p - 1 \<le> binade x" using assms by (rule binade_ge)
  then have "k \<le> binade x - int p + 1" by simp
  then have "\<exists>m::int. round_at (binade x - int p + 1) x = of_int m * 2 powi k"
    by (rule round_at_grid)
  then show ?thesis using x by (simp add: round_to_def)
qed

lemma grid_lower:
  fixes x :: real
  assumes "x = of_int m * 2 powi k" "x \<noteq> 0"
  shows "2 powi k \<le> \<bar>x\<bar>"
proof -
  have "m \<noteq> 0" using assms by auto
  then have "1 \<le> \<bar>of_int m :: real\<bar>" by (simp flip: of_int_abs)
  then have "1 * 2 powi k \<le> \<bar>of_int m :: real\<bar> * 2 powi k"
    by (intro mult_right_mono) simp_all
  then show ?thesis by (simp add: assms(1) abs_mult)
qed

lemma grid_add:
  assumes "\<exists>m::int. x = of_int m * g" "\<exists>m::int. y = of_int m * g"
  shows "\<exists>m::int. x + y = of_int m * (g::real)"
proof -
  obtain m n :: int where "x = of_int m * g" "y = of_int n * g" using assms by blast
  then have "x + y = of_int (m + n) * g" by (simp add: algebra_simps)
  then show ?thesis by blast
qed

lemma pow2_le: "a \<le> b \<Longrightarrow> (2::real) powi a \<le> 2 powi b"
  by (rule power_int_increasing) simp_all

lemma pow2_mult: "(2::real) powi a * 2 powi b = 2 powi (a + b)"
  by (simp add: power_int_add)

lemma fl64_grid:
  assumes "\<exists>m::int. x = of_int m * 2 powi k" "- 1022 \<le> k" "\<bar>x\<bar> < 2 powi 1023"
  shows "fl64 x = Num (rnd53 x)"
proof (cases "x = 0")
  case True
  then show ?thesis by simp
next
  case False
  obtain m :: int where "x = of_int m * 2 powi k" using assms(1) by blast
  then have "2 powi k \<le> \<bar>x\<bar>" using False by (rule grid_lower)
  moreover have "(2::real) powi (- 1022) \<le> 2 powi k" using assms(2) by (rule pow2_le)
  ultimately have "2 powi (- 1022) \<le> \<bar>x\<bar>" by linarith
  then show ?thesis using assms(3) by (rule fl64_normal)
qed

lemma product_rounds:
  assumes "single_range (Num x)" "single_range (Num y)"
  shows "fl64 (x * y) = Num (rnd53 (x * y))"
    and "\<exists>m::int. rnd53 (x * y) = of_int m * 2 powi (- 350)"
    and "\<bar>rnd53 (x * y)\<bar> \<le> 2 powi 257"
proof -
  have up: "\<bar>x * y\<bar> < 2 powi 256"
  proof -
    have "\<bar>x\<bar> < 2 powi 128" "\<bar>y\<bar> < 2 powi 128" using assms by auto
    then have "\<bar>x\<bar> * \<bar>y\<bar> < 2 powi 128 * 2 powi 128"
      by (intro mult_strict_mono) simp_all
    then show ?thesis by (simp only: abs_mult pow2_mult) simp
  qed
  have lo: "2 powi (- 298) \<le> \<bar>x * y\<bar>" if "x * y \<noteq> 0"
  proof -
    have "2 powi (- 149) \<le> \<bar>x\<bar>" "2 powi (- 149) \<le> \<bar>y\<bar>" using assms that by auto
    then have "2 powi (- 149) * 2 powi (- 149) \<le> \<bar>x\<bar> * \<bar>y\<bar>"
      by (intro mult_mono) simp_all
    then show ?thesis by (simp only: abs_mult pow2_mult) simp
  qed
  have "\<bar>x * y\<bar> < 2 powi 1023"
  proof -
    have "(2::real) powi 256 \<le> 2 powi 1023" by (rule pow2_le) simp
    then show ?thesis using up by linarith
  qed
  moreover have "2 powi (- 1022) \<le> \<bar>x * y\<bar>" if "x * y \<noteq> 0"
  proof -
    have "(2::real) powi (- 1022) \<le> 2 powi (- 298)" by (rule pow2_le) simp
    then show ?thesis using lo [OF that] by linarith
  qed
  ultimately show "fl64 (x * y) = Num (rnd53 (x * y))"
    by (intro fl64_safe) blast
  show "\<exists>m::int. rnd53 (x * y) = of_int m * 2 powi (- 350)"
  proof (cases "x * y = 0")
    case True
    have "rnd53 (x * y) = of_int 0 * 2 powi (- 350)" unfolding True by simp
    then show ?thesis by blast
  next
    case False
    have "2 powi (- 350 + int 53 - 1) \<le> \<bar>x * y\<bar>" using lo [OF False] by simp
    then show ?thesis unfolding rnd53_def by (rule round_to_grid_above)
  qed
  have "\<bar>rnd53 (x * y)\<bar> \<le> 2 * \<bar>x * y\<bar>" by (rule rnd53_abs_le2)
  also have "\<dots> \<le> 2 * 2 powi 256" using up by simp
  also have "\<dots> = 2 powi 1 * 2 powi 256" by simp
  also have "\<dots> = 2 powi 257" by (simp only: pow2_mult) simp
  finally show "\<bar>rnd53 (x * y)\<bar> \<le> 2 powi 257" .
qed

lemma step_budget:
  fixes B :: real
  assumes "0 \<le> B" "\<bar>z\<bar> \<le> real j * B + B / 2" "j \<le> 2 ^ 32"
  shows "\<bar>z\<bar> * (1 + 1 / 2 ^ 53) \<le> real (Suc j) * B"
proof -
  have j: "real j \<le> 2 ^ 32" using assms(3) by (metis of_nat_le_iff of_nat_numeral of_nat_power)
  have "\<bar>z\<bar> * (1 + 1 / 2 ^ 53) \<le> (real j * B + B / 2) * (1 + 1 / 2 ^ 53)"
    using assms(2) by (intro mult_right_mono) simp_all
  also have "\<dots> = B * ((real j + 1 / 2) * (1 + 1 / 2 ^ 53))"
    by (simp add: algebra_simps)
  also have "\<dots> \<le> B * (real j + 1)"
  proof (rule mult_left_mono [OF _ assms(1)])
    have "a * (1 + 1 / 2 ^ 53) = a + a / 2 ^ 53" for a :: real
      by (simp add: distrib_left)
    then have "(real j + 1 / 2) * (1 + 1 / 2 ^ 53) = real j + 1 / 2 + (real j + 1 / 2) / 2 ^ 53"
      by (simp only:)
    moreover have "(real j + 1 / 2) / 2 ^ 53 \<le> (2 ^ 32 + 1 / 2) / 2 ^ 53"
      using j by (intro divide_right_mono) simp_all
    moreover have "((2::real) ^ 32 + 1 / 2) / 2 ^ 53 \<le> 1 / 2" by simp
    ultimately show "(real j + 1 / 2) * (1 + 1 / 2 ^ 53) \<le> real j + 1" by linarith
  qed
  finally show ?thesis by (simp add: algebra_simps)
qed

lemma sum_in_range:
  assumes "\<bar>acc\<bar> \<le> real j * 2 powi 258" "\<bar>t\<bar> \<le> 2 powi 257" "j \<le> 2 ^ 32"
  shows "\<bar>acc + t\<bar> \<le> real j * 2 powi 258 + 2 powi 258 / 2" "\<bar>acc + t\<bar> < 2 powi 1023"
proof -
  have h: "(2::real) powi 258 / 2 = 2 powi 257"
  proof -
    have "(2::real) powi 258 = 2 powi 257 * 2 powi 1" by (simp only: pow2_mult) simp
    then show ?thesis by simp
  qed
  show a: "\<bar>acc + t\<bar> \<le> real j * 2 powi 258 + 2 powi 258 / 2"
    unfolding h using assms(1,2) by linarith
  have j: "real j \<le> 2 ^ 32" using assms(3) by (metis of_nat_le_iff of_nat_numeral of_nat_power)
  have "real j * 2 powi 258 \<le> 2 ^ 32 * 2 powi 258"
    using j by (intro mult_right_mono) simp_all
  also have "\<dots> = 2 powi 32 * 2 powi 258" by simp
  also have "\<dots> = 2 powi 290" by (simp only: pow2_mult) simp
  finally have "\<bar>acc + t\<bar> \<le> 2 powi 290 + 2 powi 257" using a unfolding h by linarith
  moreover have "(2::real) powi 290 \<le> 2 powi 1021" "(2::real) powi 257 \<le> 2 powi 1021"
    by (rule pow2_le, simp)+
  moreover have "(2::real) powi 1021 + 2 powi 1021 < 2 powi 1023"
  proof -
    have "(2::real) powi 1023 = 2 powi 1021 * 2 powi 2" by (simp only: pow2_mult) simp
    also have "\<dots> = 4 * 2 powi 1021" by simp
    finally show ?thesis by simp
  qed
  ultimately show "\<bar>acc + t\<bar> < 2 powi 1023" by linarith
qed

lemma dot_Num_gen:
  assumes "length xs = length ys"
    and "list_all (\<lambda>x. single_range (Num x)) xs" "list_all (\<lambda>y. single_range (Num y)) ys"
    and "\<exists>m::int. acc = of_int m * 2 powi (- 350)"
    and "\<bar>acc\<bar> \<le> real j * 2 powi 258" "j + length xs \<le> 2 ^ 32"
  shows "foldl (\<lambda>acc (x, y). js_add acc (js_mul x y)) (Num acc) (zip (map Num xs) (map Num ys)) =
      Num (foldl (\<lambda>acc (x, y). rnd53 (acc + rnd53 (x * y))) acc (zip xs ys)) \<and>
    (\<exists>m::int. foldl (\<lambda>acc (x, y). rnd53 (acc + rnd53 (x * y))) acc (zip xs ys) =
        of_int m * 2 powi (- 350)) \<and>
    \<bar>foldl (\<lambda>acc (x, y). rnd53 (acc + rnd53 (x * y))) acc (zip xs ys)\<bar> \<le>
      real (j + length xs) * 2 powi 258"
  using assms
proof (induction xs ys arbitrary: acc j rule: list_induct2)
  case Nil
  then show ?case by simp
next
  case (Cons x xs y ys)
  define t where "t = rnd53 (x * y)"
  define acc' where "acc' = rnd53 (acc + t)"
  have rx: "single_range (Num x)" and ry: "single_range (Num y)"
    using Cons.prems(1,2) by simp_all
  have t1: "fl64 (x * y) = Num t"
    and t2: "\<exists>m::int. t = of_int m * 2 powi (- 350)"
    and t3: "\<bar>t\<bar> \<le> 2 powi 257"
    unfolding t_def by (rule product_rounds [OF rx ry])+
  have j: "j \<le> 2 ^ 32" using Cons.prems(5) by simp
  have z1: "\<bar>acc + t\<bar> \<le> real j * 2 powi 258 + 2 powi 258 / 2"
    and z2: "\<bar>acc + t\<bar> < 2 powi 1023"
    by (rule sum_in_range [OF Cons.prems(4) t3 j])+
  have zg: "\<exists>m::int. acc + t = of_int m * 2 powi (- 350)"
    using Cons.prems(3) t2 by (rule grid_add)
  have s1: "fl64 (acc + t) = Num acc'"
    unfolding acc'_def using zg _ z2 by (rule fl64_grid) simp
  have g': "\<exists>m::int. acc' = of_int m * 2 powi (- 350)"
  proof -
    obtain m :: int where "acc + t = of_int m * 2 powi (- 350)" using zg by blast
    then show ?thesis unfolding acc'_def rnd53_def by (rule round_to_grid)
  qed
  have "\<bar>acc'\<bar> \<le> \<bar>acc + t\<bar> * (1 + 1 / 2 ^ 53)"
    unfolding acc'_def by (rule rnd53_abs_upper)
  also have "\<dots> \<le> real (Suc j) * 2 powi 258"
    using _ z1 j by (rule step_budget) simp
  finally have b': "\<bar>acc'\<bar> \<le> real (Suc j) * 2 powi 258" .
  have l': "Suc j + length xs \<le> 2 ^ 32" using Cons.prems(5) by simp
  have r1: "list_all (\<lambda>x. single_range (Num x)) xs" and r2: "list_all (\<lambda>y. single_range (Num y)) ys"
    using Cons.prems(1,2) by simp_all
  have step: "js_add (Num acc) (js_mul (Num x) (Num y)) = Num acc'"
    by (simp add: t1 s1)
  show ?case
    using Cons.IH [OF r1 r2 g' b' l'] step
    by (simp add: t_def acc'_def)
qed

lemma dot_Num:
  assumes "length xs = length ys"
    and "list_all (\<lambda>x. single_range (Num x)) xs" "list_all (\<lambda>y. single_range (Num y)) ys"
    and "length xs \<le> 2 ^ 32"
  shows "dot (map Num xs) (map Num ys) = Num (rdot xs ys)"
    and "\<exists>m::int. rdot xs ys = of_int m * 2 powi (- 350)"
    and "\<bar>rdot xs ys\<bar> \<le> 2 powi 290"
proof -
  have g: "\<exists>m::int. (0::real) = of_int m * 2 powi (- 350)"
    by (rule exI [of _ 0]) simp
  have b: "\<bar>0::real\<bar> \<le> real 0 * 2 powi 258" by simp
  have l: "0 + length xs \<le> 2 ^ 32" using assms(4) by simp
  note gen = dot_Num_gen [OF assms(1,2,3) g b l]
  show "dot (map Num xs) (map Num ys) = Num (rdot xs ys)"
    using gen by (simp add: dot_def rdot_def)
  show "\<exists>m::int. rdot xs ys = of_int m * 2 powi (- 350)"
    using gen unfolding rdot_def by blast
  have "real (length xs) \<le> 2 ^ 32"
    using assms(4) by (metis of_nat_le_iff of_nat_numeral of_nat_power)
  then have "real (length xs) * 2 powi 258 \<le> 2 ^ 32 * 2 powi 258"
    by (intro mult_right_mono) simp_all
  also have "\<dots> = 2 powi 32 * 2 powi 258" by simp
  also have "\<dots> = 2 powi 290" by (simp only: pow2_mult) simp
  finally show "\<bar>rdot xs ys\<bar> \<le> 2 powi 290"
    using gen unfolding rdot_def by simp
qed

lemma rdot_self_nonneg_gen:
  "0 \<le> a \<Longrightarrow> 0 \<le> foldl (\<lambda>acc (x, y). rnd53 (acc + rnd53 (x * y))) a (zip xs xs)"
proof (induction xs arbitrary: a)
  case Nil
  then show ?case by simp
next
  case (Cons x xs)
  have "0 \<le> rnd53 (x * x)" by (simp add: rnd53_sign)
  then have "0 \<le> rnd53 (a + rnd53 (x * x))" using Cons.prems by (simp add: rnd53_sign)
  then show ?case using Cons.IH by simp
qed

lemma rdot_self_nonneg: "0 \<le> rdot xs xs"
  by (simp add: rdot_def rdot_self_nonneg_gen)

lemma pow2_square: "((2::real) powi a)\<^sup>2 = 2 powi (2 * a)"
  by (simp add: power2_eq_square pow2_mult)

lemma pow2_half: "(2::real) powi a / 2 = 2 powi (a - 1)"
  by (simp add: power_int_diff)

lemma pow2_double: "2 * (2::real) powi a = 2 powi (a + 1)"
  by (simp add: power_int_add)

lemma pow2_divide: "(2::real) powi a / 2 powi b = 2 powi (a - b)"
  by (simp add: power_int_diff)

lemma sqrt_rounds:
  assumes "0 \<le> d" "\<exists>m::int. d = of_int m * 2 powi (- 350)" "\<bar>d\<bar> \<le> 2 powi 290"
  shows "js_sqrt (Num d) = Num (rnd53 (sqrt d))"
    and "d \<noteq> 0 \<Longrightarrow> 2 powi (- 176) \<le> rnd53 (sqrt d) \<and> rnd53 (sqrt d) \<le> 2 powi 146"
proof -
  have r: "2 powi (- 175) \<le> sqrt d \<and> sqrt d \<le> 2 powi 145" if "d \<noteq> 0"
  proof
    obtain m :: int where "d = of_int m * 2 powi (- 350)" using assms(2) by blast
    then have "2 powi (- 350) \<le> \<bar>d\<bar>" using that by (rule grid_lower)
    then have "((2::real) powi (- 175))\<^sup>2 \<le> d" using assms(1) by (simp only: pow2_square) simp
    then show "2 powi (- 175) \<le> sqrt d" by (rule real_le_rsqrt)
    have "d \<le> ((2::real) powi 145)\<^sup>2" using assms(1,3) by (simp only: pow2_square) simp
    then show "sqrt d \<le> 2 powi 145" by (intro real_le_lsqrt) simp_all
  qed
  show "js_sqrt (Num d) = Num (rnd53 (sqrt d))"
  proof (cases "d = 0")
    case True
    then show ?thesis by simp
  next
    case False
    have "(2::real) powi (- 1022) \<le> 2 powi (- 175)" by (rule pow2_le) simp
    then have a: "2 powi (- 1022) \<le> \<bar>sqrt d\<bar>" using r [OF False] by linarith
    have "(2::real) powi 145 < 2 powi 1023" by (rule power_int_strict_increasing) simp_all
    then have b: "\<bar>sqrt d\<bar> < 2 powi 1023" using r [OF False] assms(1) by simp
    show ?thesis using assms(1) fl64_normal [OF a b] by simp
  qed
  show "2 powi (- 176) \<le> rnd53 (sqrt d) \<and> rnd53 (sqrt d) \<le> 2 powi 146" if "d \<noteq> 0"
  proof -
    have pos: "0 < sqrt d" using assms(1) that by simp
    then have mpos: "0 < rnd53 (sqrt d)" by (simp add: rnd53_sign)
    have "2 powi (- 175) / 2 \<le> \<bar>sqrt d\<bar> / 2" using r [OF that] pos by simp
    also have "\<dots> \<le> \<bar>rnd53 (sqrt d)\<bar>" by (rule rnd53_abs_ge_half)
    finally have lo: "2 powi (- 176) \<le> rnd53 (sqrt d)"
      using mpos by (simp only: pow2_half) simp
    have "\<bar>rnd53 (sqrt d)\<bar> \<le> 2 * \<bar>sqrt d\<bar>" by (rule rnd53_abs_le2)
    also have "\<dots> \<le> 2 * 2 powi 145" using r [OF that] pos by simp
    finally have "rnd53 (sqrt d) \<le> 2 powi 146"
      using mpos by (simp only: pow2_double) simp
    with lo show ?thesis by blast
  qed
qed

lemma cosine_Num:
  assumes len: "length ys = length xs"
    and rx: "list_all (\<lambda>x. single_range (Num x)) xs"
    and ry: "list_all (\<lambda>y. single_range (Num y)) ys"
    and n: "length xs \<le> 2 ^ 32"
  shows "cosine (map Num xs) (map Num ys) = Num (rcos xs ys)"
proof -
  define d where "d = rdot xs ys"
  define mx where "mx = rnd53 (sqrt (rdot xs xs))"
  define my where "my = rnd53 (sqrt (rdot ys ys))"
  define P where "P = rnd53 (mx * my)"
  have n': "length ys \<le> 2 ^ 32" using len n by simp
  have dxy: "dot (map Num xs) (map Num ys) = Num d"
    and dg: "\<exists>m::int. d = of_int m * 2 powi (- 350)"
    and db: "\<bar>d\<bar> \<le> 2 powi 290"
    unfolding d_def using len by (intro dot_Num rx ry n; simp)+
  have dxx: "dot (map Num xs) (map Num xs) = Num (rdot xs xs)"
    and xg: "\<exists>m::int. rdot xs xs = of_int m * 2 powi (- 350)"
    and xb: "\<bar>rdot xs xs\<bar> \<le> 2 powi 290"
    by (intro dot_Num rx n; simp)+
  have dyy: "dot (map Num ys) (map Num ys) = Num (rdot ys ys)"
    and yg: "\<exists>m::int. rdot ys ys = of_int m * 2 powi (- 350)"
    and yb: "\<bar>rdot ys ys\<bar> \<le> 2 powi 290"
    by (intro dot_Num ry n'; simp)+
  have magx: "magnitude (map Num xs) = Num mx"
    unfolding magnitude_def dxx mx_def by (rule sqrt_rounds(1) [OF rdot_self_nonneg xg xb])
  have magy: "magnitude (map Num ys) = Num my"
    unfolding magnitude_def dyy my_def by (rule sqrt_rounds(1) [OF rdot_self_nonneg yg yb])
  have c: "cosine (map Num xs) (map Num ys) =
      (if mx = 0 \<or> my = 0 then Num 0 else js_div (Num d) (js_mul (Num mx) (Num my)))"
    using len by (simp add: cosine_spec spec_similarity_def magx magy dxy)
  have r: "rcos xs ys = (if mx = 0 \<or> my = 0 then 0 else rnd53 (d / P))"
    by (simp add: rcos_def mx_def my_def P_def d_def)
  show ?thesis
  proof (cases "mx = 0 \<or> my = 0")
    case True
    then show ?thesis by (simp add: c r)
  next
    case False
    then have "rdot xs xs \<noteq> 0" "rdot ys ys \<noteq> 0"
      by (auto simp: mx_def my_def)
    then have bx: "2 powi (- 176) \<le> mx" "mx \<le> 2 powi 146"
      and by': "2 powi (- 176) \<le> my" "my \<le> 2 powi 146"
      unfolding mx_def my_def
      using sqrt_rounds(2) [OF rdot_self_nonneg xg xb] sqrt_rounds(2) [OF rdot_self_nonneg yg yb]
      by blast+
    have mx0: "0 < mx" and my0: "0 < my"
    proof -
      have "(0::real) < 2 powi (- 176)" by simp
      then show "0 < mx" "0 < my" using bx(1) by'(1) by linarith+
    qed
    have "2 powi (- 176) * 2 powi (- 176) \<le> mx * my"
      using bx(1) by'(1) by (intro mult_mono) simp_all
    then have plo: "2 powi (- 352) \<le> mx * my" by (simp only: pow2_mult) simp
    have "mx * my \<le> 2 powi 146 * 2 powi 146"
      using bx(2) by'(2) mx0 my0 by (intro mult_mono) simp_all
    then have pup: "mx * my \<le> 2 powi 292" by (simp only: pow2_mult) simp
    have pp: "0 < mx * my" using mx0 my0 by simp
    have "(2::real) powi (- 1022) \<le> 2 powi (- 352)" by (rule pow2_le) simp
    then have a: "2 powi (- 1022) \<le> \<bar>mx * my\<bar>" using plo pp by linarith
    have "(2::real) powi 292 < 2 powi 1023" by (rule power_int_strict_increasing) simp_all
    then have b: "\<bar>mx * my\<bar> < 2 powi 1023" using pup pp by linarith
    have mul: "js_mul (Num mx) (Num my) = Num P"
      using fl64_normal [OF a b] by (simp add: P_def)
    have P0: "0 < P" using pp by (simp add: P_def rnd53_sign)
    have "2 powi (- 352) / 2 \<le> \<bar>mx * my\<bar> / 2" using plo pp by simp
    also have "\<dots> \<le> \<bar>P\<bar>" unfolding P_def by (rule rnd53_abs_ge_half)
    finally have Plo: "2 powi (- 353) \<le> P" using P0 by (simp only: pow2_half) simp
    have "\<bar>P\<bar> \<le> 2 * \<bar>mx * my\<bar>" unfolding P_def by (rule rnd53_abs_le2)
    also have "\<dots> \<le> 2 * 2 powi 292" using pup pp by simp
    finally have Pup: "P \<le> 2 powi 293" using P0 by (simp only: pow2_double) simp
    have q: "fl64 (d / P) = Num (rnd53 (d / P))"
    proof (cases "d = 0")
      case True
      then show ?thesis by simp
    next
      case False
      obtain m :: int where "d = of_int m * 2 powi (- 350)" using dg by blast
      then have dlo: "2 powi (- 350) \<le> \<bar>d\<bar>" using False by (rule grid_lower)
      have "2 powi (- 350) / 2 powi 293 \<le> \<bar>d\<bar> / P"
        using dlo Pup P0 by (intro frac_le) simp_all
      then have "2 powi (- 643) \<le> \<bar>d\<bar> / P" by (simp only: pow2_divide) simp
      moreover have "(2::real) powi (- 1022) \<le> 2 powi (- 643)" by (rule pow2_le) simp
      ultimately have a: "2 powi (- 1022) \<le> \<bar>d / P\<bar>" using P0 by simp
      have "\<bar>d\<bar> / P \<le> 2 powi 290 / 2 powi (- 353)"
        using db Plo by (intro frac_le) simp_all
      then have "\<bar>d\<bar> / P \<le> 2 powi 643" by (simp only: pow2_divide) simp
      moreover have "(2::real) powi 643 < 2 powi 1023"
        by (rule power_int_strict_increasing) simp_all
      ultimately have b: "\<bar>d / P\<bar> < 2 powi 1023" using P0 by simp
      show ?thesis using a b by (rule fl64_normal)
    qed
    have "js_div (Num d) (js_mul (Num mx) (Num my)) = js_div (Num d) (Num P)"
      by (simp only: mul)
    also have "\<dots> = fl64 (d / P)" using P0 by simp
    also have "\<dots> = Num (rnd53 (d / P))" by (rule q)
    finally show ?thesis by (simp only: c r False if_False)
  qed
qed

section \<open>Rounding at concrete values\<close>

lemma rnd53_eqI:
  assumes "2 powi e0 \<le> \<bar>x\<bar>" "\<bar>x\<bar> < 2 powi (e0 + 1)"
    and "\<bar>x / 2 powi (e0 - 52) - of_int m\<bar> < 1 / 2"
  shows "rnd53 x = of_int m * 2 powi (e0 - 52)"
  using round_to_eqI [of e0 x 53 m] assms by (simp add: rnd53_def)

lemma rnd53_2: "rnd53 2 = 2"
  using rnd53_eqI [of 1 2 "2 ^ 52"] by (simp add: power_int_minus)

lemma rnd53_3: "rnd53 3 = 3"
  using rnd53_eqI [of 1 3 "3 * 2 ^ 51"] by (simp add: power_int_minus)

lemma sqrt_between:
  assumes "0 \<le> a" "a * a < x" "x < b * b" "0 \<le> b"
  shows "a < sqrt x \<and> sqrt x < b"
proof -
  have "a\<^sup>2 < x" "x < b\<^sup>2" using assms by (simp_all add: power2_eq_square)
  then show ?thesis
    using assms real_less_rsqrt real_less_lsqrt by (metis less_eq_real_def order.strict_trans2 mult_nonneg_nonneg)
qed

lemma rnd53_sqrt_eqI:
  assumes "0 < m" "(2 * of_int m - 1) * (2 * of_int m - 1) < x * 2 ^ 106"
    "x * 2 ^ 106 < (2 * of_int m + 1) * (2 * of_int m + 1)" "1 \<le> x" "x < 4"
  shows "rnd53 (sqrt x) = of_int m / 2 ^ 52"
proof -
  have m: "(1::real) \<le> of_int m" using assms(1) by simp
  have "(2 * of_int m - 1) / 2 ^ 53 * ((2 * of_int m - 1) / 2 ^ 53) < x"
    "x < (2 * of_int m + 1) / 2 ^ 53 * ((2 * of_int m + 1) / 2 ^ 53)"
    using assms(2,3) by (simp_all add: field_simps)
  moreover have "(0::real) \<le> (2 * of_int m - 1) / 2 ^ 53" "(0::real) \<le> (2 * of_int m + 1) / 2 ^ 53"
    using m by simp_all
  ultimately have "(2 * of_int m - 1) / 2 ^ 53 < sqrt x \<and> sqrt x < (2 * of_int m + 1) / 2 ^ 53"
    by (intro sqrt_between)
  then have c: "2 * of_int m - 1 < sqrt x * 2 ^ 53" "sqrt x * 2 ^ 53 < 2 * of_int m + 1"
    by (simp_all add: field_simps)
  have "sqrt 1 \<le> sqrt x" "sqrt x < sqrt 4"
    using assms by (simp_all only: real_sqrt_le_iff real_sqrt_less_iff)
  then have r: "1 \<le> sqrt x" "sqrt x < 2" by simp_all
  have "sqrt x / 2 powi (0 - 52) = sqrt x * 2 ^ 53 / 2"
    by (simp add: power_int_minus)
  then have "\<bar>sqrt x / 2 powi (0 - 52) - of_int m\<bar> < 1 / 2"
    using c by linarith
  then have "rnd53 (sqrt x) = of_int m * 2 powi (0 - 52)"
    using r by (intro rnd53_eqI) simp_all
  then show ?thesis by (simp add: power_int_minus field_simps)
qed

lemma rnd53_sqrt_2: "rnd53 (sqrt 2) = 6369051672525773 / 2 ^ 52"
  using rnd53_sqrt_eqI [of 6369051672525773 2] by simp

lemma rnd53_sqrt_3: "rnd53 (sqrt 3) = 7800463371553962 / 2 ^ 52"
  using rnd53_sqrt_eqI [of 7800463371553962 3] by simp

lemma rnd53_square_sqrt_2:
  "rnd53 (6369051672525773 / 2 ^ 52 * (6369051672525773 / 2 ^ 52)) = 4503599627370497 / 2 ^ 51"
  using rnd53_eqI [of 1 "6369051672525773 / 2 ^ 52 * (6369051672525773 / 2 ^ 52)" 4503599627370497]
  by (simp add: power_int_minus)

lemma rnd53_square_sqrt_3:
  "rnd53 (7800463371553962 / 2 ^ 52 * (7800463371553962 / 2 ^ 52)) = 6755399441055743 / 2 ^ 51"
  using rnd53_eqI [of 1 "7800463371553962 / 2 ^ 52 * (7800463371553962 / 2 ^ 52)" 6755399441055743]
  by (simp add: power_int_minus)

lemma rnd53_quotient_2: "rnd53 (2 / (4503599627370497 / 2 ^ 51)) = 9007199254740990 / 2 ^ 53"
  using rnd53_eqI [of "- 1" "2 / (4503599627370497 / 2 ^ 51)" 9007199254740990]
  by (simp add: power_int_minus)

lemma rnd53_quotient_3: "rnd53 (3 / (6755399441055743 / 2 ^ 51)) = 4503599627370497 / 2 ^ 52"
  using rnd53_eqI [of 0 "3 / (6755399441055743 / 2 ^ 51)" 4503599627370497]
  by (simp add: power_int_minus)

lemma rdot_ones_2: "rdot [1, 1] [1, 1] = 2"
  by (simp add: rdot_def rnd53_2)

lemma rdot_ones_3: "rdot [1, 1, 1] [1, 1, 1] = 3"
  by (simp add: rdot_def rnd53_2 rnd53_3)

lemma rcos_ones_2: "rcos [1, 1] [1, 1] = 9007199254740990 / 2 ^ 53"
  unfolding rcos_def rdot_ones_2 rnd53_sqrt_2 rnd53_square_sqrt_2 rnd53_quotient_2 by simp

lemma rcos_ones_3: "rcos [1, 1, 1] [1, 1, 1] = 4503599627370497 / 2 ^ 52"
  unfolding rcos_def rdot_ones_3 rnd53_sqrt_3 rnd53_square_sqrt_3 rnd53_quotient_3 by simp


lemma ones_in_range:
  "list_all (\<lambda>x. single_range (Num x)) [1, 1]"
  "list_all (\<lambda>x. single_range (Num x)) [1, 1, 1]"
  by (simp_all add: power_int_minus)

text \<open>
  Claim C7 as stated fails in double arithmetic: for the vector (1, 1) the square of
  the rounded root of 2 exceeds 2, and the routine returns 1 - 2 powi -52
  (0.9999999999999998), not 1.
\<close>

theorem self_similarity_counterexample:
  "cosine [Num 1, Num 1] [Num 1, Num 1] = Num (1 - 1 / 2 ^ 52) \<and>
   cosine [Num 1, Num 1] [Num 1, Num 1] \<noteq> Num 1"
  using cosine_Num [of "[1, 1]" "[1, 1]"] ones_in_range(1) by (simp add: rcos_ones_2)

text \<open>
  Claim C10 as stated fails in double arithmetic: for the vector (1, 1, 1) against
  itself the square of the rounded root of 3 falls short of 3, and the routine returns
  1 + 2 powi -52 (1.0000000000000002), which is above 1.
\<close>

theorem score_bound_counterexample:
  "cosine [Num 1, Num 1, Num 1] [Num 1, Num 1, Num 1] = Num (1 + 1 / 2 ^ 52) \<and>
   \<not> (1 + 1 / 2 ^ 52 \<le> (1::real))"
  using cosine_Num [of "[1, 1, 1]" "[1, 1, 1]"] ones_in_range(2) by (simp add: rcos_ones_3)

section \<open>Rounding error of the reference routine\<close>

lemma rnd53_upper: "0 \<le> x \<Longrightarrow> rnd53 x \<le> x * (1 + 1 / 2 ^ 53)"
proof -
  assume "0 \<le> x"
  moreover have "x * (1 + 1 / 2 ^ 53) = x + x / 2 ^ 53" by (simp add: algebra_simps)
  ultimately show ?thesis using rnd53_error [of x] by linarith
qed

lemma rnd53_lower: "0 \<le> x \<Longrightarrow> x * (1 - 1 / 2 ^ 53) \<le> rnd53 x"
proof -
  assume "0 \<le> x"
  moreover have "x * (1 - 1 / 2 ^ 53) = x - x / 2 ^ 53" by (simp add: algebra_simps)
  ultimately show ?thesis using rnd53_error [of x] by linarith
qed

lemma rdot_self_pos_gen:
  "0 \<le> a \<Longrightarrow> 0 < a \<or> (\<exists>x\<in>set xs. x \<noteq> 0) \<Longrightarrow>
     0 < foldl (\<lambda>acc (x, y). rnd53 (acc + rnd53 (x * y))) a (zip xs xs)"
proof (induction xs arbitrary: a)
  case Nil
  then show ?case by simp
next
  case (Cons x xs)
  have sq: "0 \<le> rnd53 (x * x)" by (simp add: rnd53_sign)
  then have nn: "0 \<le> rnd53 (a + rnd53 (x * x))" using Cons.prems(1) by (simp add: rnd53_sign)
  have "0 < rnd53 (a + rnd53 (x * x)) \<or> (\<exists>x\<in>set xs. x \<noteq> 0)"
  proof (cases "0 < a \<or> x \<noteq> 0")
    case True
    then have "0 < a \<or> 0 < rnd53 (x * x)" by (auto simp: rnd53_sign zero_less_mult_iff)
    then have "0 < a + rnd53 (x * x)" using sq Cons.prems(1) by linarith
    then show ?thesis by (simp add: rnd53_sign)
  next
    case False
    then show ?thesis using Cons.prems(2) by auto
  qed
  then show ?case using Cons.IH [OF nn] by simp
qed

lemma rdot_self_pos: "\<exists>x\<in>set xs. x \<noteq> 0 \<Longrightarrow> 0 < rdot xs xs"
  by (simp add: rdot_def rdot_self_pos_gen)

lemma self_numeric_bounds:
  "1 - 1 / 2 ^ 50 \<le> (1 - 1 / 2 ^ 53) / ((1 + 1 / 2 ^ 53) * (1 + 1 / 2 ^ 53) * (1 + 1 / 2 ^ 53) :: real)"
  "(1 + 1 / 2 ^ 53) / ((1 - 1 / 2 ^ 53) * (1 - 1 / 2 ^ 53) * (1 - 1 / 2 ^ 53)) \<le> (1 + 1 / 2 ^ 50 :: real)"
  by (simp_all add: field_simps)

lemma rcos_self_bound:
  assumes "\<exists>x\<in>set xs. x \<noteq> 0"
  shows "\<bar>rcos xs xs - 1\<bar> \<le> 1 / 2 ^ 50"
proof -
  define u :: real where "u = 1 / 2 ^ 53"
  define s where "s = rdot xs xs"
  define a where "a = sqrt s"
  define m where "m = rnd53 a"
  define p where "p = rnd53 (m * m)"
  have u: "0 < u" "u < 1" by (simp_all add: u_def)
  have s: "0 < s" using assms by (simp add: s_def rdot_self_pos)
  then have a: "0 < a" "a * a = s" by (simp_all add: a_def)
  have m: "a * (1 - u) \<le> m" "m \<le> a * (1 + u)"
    using a(1) rnd53_lower [of a] rnd53_upper [of a] by (simp_all add: m_def u_def)
  have m0: "0 < m" using a(1) by (simp add: m_def rnd53_sign)
  have lo1: "0 < a * (1 - u)" using a(1) u by simp
  have mm: "s * ((1 - u) * (1 - u)) \<le> m * m" "m * m \<le> s * ((1 + u) * (1 + u))"
  proof -
    have "a * (1 - u) * (a * (1 - u)) \<le> m * m"
      using m(1) lo1 by (intro mult_mono) simp_all
    moreover have "a * (1 - u) * (a * (1 - u)) = a * a * ((1 - u) * (1 - u))" by simp
    ultimately show "s * ((1 - u) * (1 - u)) \<le> m * m"
      unfolding a(2) by simp
    have "m * m \<le> a * (1 + u) * (a * (1 + u))"
      using m(2) m0 by (intro mult_mono) simp_all
    moreover have "a * (1 + u) * (a * (1 + u)) = a * a * ((1 + u) * (1 + u))" by simp
    ultimately show "m * m \<le> s * ((1 + u) * (1 + u))"
      unfolding a(2) by simp
  qed
  have mm0: "0 < m * m" using m0 by simp
  have p0: "0 < p" using mm0 by (simp add: p_def rnd53_sign)
  have p: "m * m * (1 - u) \<le> p" "p \<le> m * m * (1 + u)"
    using mm0 rnd53_lower [of "m * m"] rnd53_upper [of "m * m"] by (simp_all add: p_def u_def)
  have pl: "s * ((1 - u) * (1 - u) * (1 - u)) \<le> p"
  proof -
    have "s * ((1 - u) * (1 - u)) * (1 - u) \<le> m * m * (1 - u)"
      using mm(1) u by (intro mult_right_mono) simp_all
    then show ?thesis using p(1) by (simp add: mult.assoc)
  qed
  have pu: "p \<le> s * ((1 + u) * (1 + u) * (1 + u))"
  proof -
    have "m * m * (1 + u) \<le> s * ((1 + u) * (1 + u)) * (1 + u)"
      using mm(2) u by (intro mult_right_mono) simp_all
    then show ?thesis using p(2) by (simp add: mult.assoc)
  qed
  have c3: "0 < (1 - u) * (1 - u) * (1 - u)" using u by simp
  have q0: "0 < s / p" using s p0 by simp
  have ql: "1 / ((1 + u) * (1 + u) * (1 + u)) \<le> s / p"
  proof -
    have "s / (s * ((1 + u) * (1 + u) * (1 + u))) \<le> s / p"
      using pu p0 s by (intro divide_left_mono) simp_all
    then show ?thesis using s by simp
  qed
  have qu: "s / p \<le> 1 / ((1 - u) * (1 - u) * (1 - u))"
  proof -
    have "s / p \<le> s / (s * ((1 - u) * (1 - u) * (1 - u)))"
      using pl c3 p0 s by (intro divide_left_mono) simp_all
    then show ?thesis using s by simp
  qed
  have r: "rcos xs xs = rnd53 (s / p)"
    using m0 by (simp add: rcos_def s_def [symmetric] a_def [symmetric] m_def [symmetric]
        p_def [symmetric])
  have rl: "(1 - u) / ((1 + u) * (1 + u) * (1 + u)) \<le> rnd53 (s / p)"
  proof -
    have "1 / ((1 + u) * (1 + u) * (1 + u)) * (1 - u) \<le> s / p * (1 - u)"
      using ql u by (intro mult_right_mono) simp_all
    also have "\<dots> \<le> rnd53 (s / p)"
      using rnd53_lower [of "s / p"] q0 by (simp add: u_def)
    finally show ?thesis by simp
  qed
  have ru: "rnd53 (s / p) \<le> (1 + u) / ((1 - u) * (1 - u) * (1 - u))"
  proof -
    have "rnd53 (s / p) \<le> s / p * (1 + u)"
      using rnd53_upper [of "s / p"] q0 by (simp add: u_def)
    also have "\<dots> \<le> 1 / ((1 - u) * (1 - u) * (1 - u)) * (1 + u)"
      using qu u by (intro mult_right_mono) simp_all
    finally show ?thesis by simp
  qed
  show ?thesis
    using rl ru self_numeric_bounds unfolding r u_def by linarith
qed


lemma range_reals:
  assumes "list_all single_range v"
  shows "map Num (map the_real v) = v"
    and "list_all (\<lambda>x. single_range (Num x)) (map the_real v)"
  using assms
proof (induction v)
  case Nil
  {
    case 1
    show ?case by simp
  next
    case 2
    show ?case by simp
  }
next
  case (Cons x v)
  {
    case 1
    then show ?case using Cons.IH(1) by (cases x) simp_all
  next
    case 2
    then show ?case using Cons.IH(2) by (cases x) simp_all
  }
qed

lemma the_real_nonzero:
  assumes "list_all single_range v" "\<exists>x\<in>set v. x \<noteq> Num 0"
  shows "\<exists>x\<in>set (map the_real v). x \<noteq> 0"
proof -
  obtain x where x: "x \<in> set v" "x \<noteq> Num 0" using assms(2) by blast
  then have "single_range x" using assms(1) by (simp add: list_all_iff)
  then have "the_real x \<noteq> 0" using x(2) by (cases x) simp_all
  then show ?thesis using x(1) by auto
qed

text \<open>
  Claim C7, as the code has it. For every vector of at most \<open>2 ^ 32\<close> elements, each 0 or
  of absolute value from \<open>2 powi -149\<close> up to, but not reaching, \<open>2 powi 128\<close> (the range of
  the finite single-precision numbers), and not all 0, the routine's similarity of the
  vector with itself is a number within 2 powi -50 of 1: no operation overflows or
  underflows, the three accumulators hold the same sum, and only the root, the product
  of the two roots and the division round.
\<close>

theorem self_similarity_rounded:
  "list_all single_range v \<and> (\<exists>x\<in>set v. x \<noteq> Num 0) \<and> length v \<le> 2 ^ 32 \<longrightarrow>
     (\<exists>r. cosine v v = Num r \<and> \<bar>r - 1\<bar> \<le> 1 / 2 ^ 50)"
proof
  assume h: "list_all single_range v \<and> (\<exists>x\<in>set v. x \<noteq> Num 0) \<and> length v \<le> 2 ^ 32"
  then have v: "map Num (map the_real v) = v"
    and r: "list_all (\<lambda>x. single_range (Num x)) (map the_real v)"
    using range_reals by blast+
  have "cosine (map Num (map the_real v)) (map Num (map the_real v)) =
      Num (rcos (map the_real v) (map the_real v))"
    using h by (intro cosine_Num r) simp_all
  moreover have "\<bar>rcos (map the_real v) (map the_real v) - 1\<bar> \<le> 1 / 2 ^ 50"
    using h by (intro rcos_self_bound the_real_nonzero) simp_all
  ultimately show "\<exists>r. cosine v v = Num r \<and> \<bar>r - 1\<bar> \<le> 1 / 2 ^ 50"
    unfolding v by blast
qed

theorem self_similarity_rounded_witness:
  "list_all single_range [Num 3, Num 0] \<and> (\<exists>x\<in>set [Num 3, Num 0]. x \<noteq> Num 0) \<and>
   length [Num 3, Num 0 :: jsnum] \<le> 2 ^ 32 \<and>
   (\<exists>r. cosine [Num 3, Num 0] [Num 3, Num 0] = Num r \<and> \<bar>r - 1\<bar> \<le> 1 / 2 ^ 50)"
proof -
  have "list_all single_range [Num 3, Num 0]" by (simp add: power_int_minus)
  then show ?thesis
    using self_similarity_rounded [of "[Num 3, Num 0]"] by simp
qed

section \<open>A bound on every score\<close>

lemma foldl_abs_upper:
  "\<bar>foldl (\<lambda>acc (x, y). rnd53 (acc + rnd53 (x * y))) a zs\<bar> \<le>
     (1 + 1 / 2 ^ 53) ^ (2 * length zs) * (\<bar>a\<bar> + (\<Sum>(x, y)\<leftarrow>zs. \<bar>x * y\<bar>))"
proof (induction zs arbitrary: a)
  case Nil
  show ?case by simp
next
  case (Cons z zs)
  obtain x y where z: "z = (x, y)" by (cases z)
  define u :: real where "u = 1 / 2 ^ 53"
  define S where "S = (\<Sum>(x, y)\<leftarrow>zs. \<bar>x * y\<bar>)"
  define a' where "a' = rnd53 (a + rnd53 (x * y))"
  have u: "0 \<le> u" by (simp add: u_def)
  have S: "0 \<le> S" unfolding S_def by (rule sum_list_nonneg) auto
  have "\<bar>rnd53 (x * y)\<bar> \<le> \<bar>x * y\<bar> * (1 + u)"
    unfolding u_def by (rule rnd53_abs_upper)
  then have "\<bar>a + rnd53 (x * y)\<bar> \<le> \<bar>a\<bar> + \<bar>x * y\<bar> * (1 + u)" by linarith
  also have "\<dots> \<le> (\<bar>a\<bar> + \<bar>x * y\<bar>) * (1 + u)"
    using u by (simp add: algebra_simps)
  finally have "\<bar>a + rnd53 (x * y)\<bar> * (1 + u) \<le> (\<bar>a\<bar> + \<bar>x * y\<bar>) * (1 + u) * (1 + u)"
    using u by (intro mult_right_mono) simp_all
  moreover have "\<bar>a'\<bar> \<le> \<bar>a + rnd53 (x * y)\<bar> * (1 + u)"
    unfolding a'_def u_def by (rule rnd53_abs_upper)
  ultimately have a': "\<bar>a'\<bar> \<le> (1 + u) ^ 2 * (\<bar>a\<bar> + \<bar>x * y\<bar>)"
    by (simp add: power2_eq_square algebra_simps)
  have one: "1 \<le> (1 + u) ^ 2" using u by (simp add: one_le_power)
  have pw: "0 \<le> (1 + u) ^ (2 * length zs)" using u by simp
  have "\<bar>foldl (\<lambda>acc (x, y). rnd53 (acc + rnd53 (x * y))) a' zs\<bar> \<le>
      (1 + u) ^ (2 * length zs) * (\<bar>a'\<bar> + S)"
    using Cons.IH [of a'] by (simp add: u_def S_def)
  also have "\<dots> \<le> (1 + u) ^ (2 * length zs) * ((1 + u) ^ 2 * (\<bar>a\<bar> + \<bar>x * y\<bar>) + (1 + u) ^ 2 * S)"
  proof -
    have "S \<le> (1 + u) ^ 2 * S" using one S by (simp add: mult_le_cancel_right1)
    then show ?thesis using a' pw by (intro mult_left_mono) linarith+
  qed
  also have "\<dots> = (1 + u) ^ (2 * length (z # zs)) * (\<bar>a\<bar> + (\<bar>x * y\<bar> + S))"
    by (simp add: algebra_simps power_add power2_eq_square)
  finally show ?case
    by (simp add: z a'_def u_def S_def)
qed

lemma foldl_sq_lower:
  "0 \<le> a \<Longrightarrow>
   (1 - 1 / 2 ^ 53) ^ (2 * length xs) * (a + (\<Sum>x\<leftarrow>xs. x * x)) \<le>
     foldl (\<lambda>acc (x, y). rnd53 (acc + rnd53 (x * y))) a (zip xs xs)"
proof (induction xs arbitrary: a)
  case Nil
  then show ?case by simp
next
  case (Cons x xs)
  define u :: real where "u = 1 / 2 ^ 53"
  define S where "S = (\<Sum>x\<leftarrow>xs. x * x)"
  define a' where "a' = rnd53 (a + rnd53 (x * x))"
  have u: "0 \<le> u" "u \<le> 1" by (simp_all add: u_def)
  have S: "0 \<le> S" unfolding S_def by (rule sum_list_nonneg) auto
  have sq: "0 \<le> rnd53 (x * x)" by (simp add: rnd53_sign)
  have "x * x * (1 - u) \<le> rnd53 (x * x)"
    unfolding u_def by (rule rnd53_lower) simp
  moreover have "a * (1 - u) \<le> a * 1"
    using Cons.prems u by (intro mult_left_mono) simp_all
  ultimately have "(a + x * x) * (1 - u) \<le> a + rnd53 (x * x)"
    by (simp add: algebra_simps)
  then have "(a + x * x) * (1 - u) * (1 - u) \<le> (a + rnd53 (x * x)) * (1 - u)"
    using u by (intro mult_right_mono) simp_all
  moreover have "(a + rnd53 (x * x)) * (1 - u) \<le> a'"
    unfolding a'_def u_def using sq Cons.prems by (intro rnd53_lower) simp
  ultimately have a': "(1 - u) ^ 2 * (a + x * x) \<le> a'"
    by (simp add: power2_eq_square algebra_simps)
  have a'0: "0 \<le> a'" using sq Cons.prems by (simp add: a'_def rnd53_sign)
  have one: "(1 - u) ^ 2 \<le> 1" using u by (simp add: power_le_one)
  have pw: "0 \<le> (1 - u) ^ (2 * length xs)" using u by simp
  have "(1 - u) ^ (2 * length (x # xs)) * (a + (x * x + S)) =
      (1 - u) ^ (2 * length xs) * ((1 - u) ^ 2 * (a + x * x) + (1 - u) ^ 2 * S)"
    by (simp add: algebra_simps power_add power2_eq_square)
  also have "\<dots> \<le> (1 - u) ^ (2 * length xs) * (a' + S)"
  proof -
    have "(1 - u) ^ 2 * S \<le> S" using one S by (simp add: mult_le_cancel_right2)
    then show ?thesis using a' pw by (intro mult_left_mono) linarith+
  qed
  also have "\<dots> \<le> foldl (\<lambda>acc (x, y). rnd53 (acc + rnd53 (x * y))) a' (zip xs xs)"
    using Cons.IH [OF a'0] by (simp add: u_def S_def)
  finally show ?case
    by (simp add: a'_def u_def S_def)
qed

lemma cauchy_schwarz_list:
  "length xs = length ys \<Longrightarrow>
   (\<Sum>(x, y)\<leftarrow>zip xs ys. \<bar>x * y\<bar>)\<^sup>2 \<le> (\<Sum>x\<leftarrow>xs. x * x) * (\<Sum>y\<leftarrow>ys. y * y :: real)"
proof (induction xs ys rule: list_induct2)
  case Nil
  show ?case by simp
next
  case (Cons x xs y ys)
  define S where "S = (\<Sum>(x, y)\<leftarrow>zip xs ys. \<bar>x * y\<bar>)"
  define A where "A = (\<Sum>x\<leftarrow>xs. x * x)"
  define B where "B = (\<Sum>y\<leftarrow>ys. y * y)"
  have S: "0 \<le> S" unfolding S_def by (rule sum_list_nonneg) auto
  have A: "0 \<le> A" unfolding A_def by (rule sum_list_nonneg) auto
  have B: "0 \<le> B" unfolding B_def by (rule sum_list_nonneg) auto
  have IH: "S\<^sup>2 \<le> A * B" using Cons.IH by (simp add: S_def A_def B_def)
  have "S \<le> sqrt (A * B)" using IH by (rule real_le_rsqrt)
  then have S': "S \<le> sqrt A * sqrt B" by (simp add: real_sqrt_mult)
  define p where "p = \<bar>x\<bar> * sqrt B"
  define q where "q = \<bar>y\<bar> * sqrt A"
  have "2 * p * q \<le> p\<^sup>2 + q\<^sup>2" by (rule sum_squares_bound)
  moreover have "p\<^sup>2 = x * x * B" "q\<^sup>2 = y * y * A"
  proof -
    have "p\<^sup>2 = \<bar>x\<bar>\<^sup>2 * (sqrt B)\<^sup>2" "q\<^sup>2 = \<bar>y\<bar>\<^sup>2 * (sqrt A)\<^sup>2"
      by (simp_all add: p_def q_def power_mult_distrib)
    then show "p\<^sup>2 = x * x * B" "q\<^sup>2 = y * y * A"
      using A B by (simp_all add: power2_eq_square [of x] power2_eq_square [of y])
  qed
  moreover have "2 * \<bar>x * y\<bar> * S \<le> 2 * \<bar>x * y\<bar> * (sqrt A * sqrt B)"
    using S' by (intro mult_left_mono) simp_all
  moreover have "2 * \<bar>x * y\<bar> * (sqrt A * sqrt B) = 2 * p * q"
    by (simp add: p_def q_def abs_mult)
  ultimately have "2 * \<bar>x * y\<bar> * S \<le> x * x * B + y * y * A" by linarith
  moreover have "(\<bar>x * y\<bar> + S)\<^sup>2 = x * x * (y * y) + 2 * \<bar>x * y\<bar> * S + S\<^sup>2"
    by (simp add: power2_eq_square algebra_simps abs_mult)
  moreover have "(x * x + A) * (y * y + B) = x * x * (y * y) + (x * x * B + y * y * A) + A * B"
    by (simp add: algebra_simps)
  ultimately have "(\<bar>x * y\<bar> + S)\<^sup>2 \<le> (x * x + A) * (y * y + B)"
    using IH by linarith
  then show ?case by (simp add: S_def A_def B_def)
qed

lemma power_upper:
  fixes x :: real
  shows "0 \<le> x \<Longrightarrow> 2 * real n * x \<le> 1 \<Longrightarrow> (1 + x) ^ n \<le> 1 + 2 * real n * x"
proof (induction n)
  case 0
  show ?case by simp
next
  case (Suc n)
  have s: "2 * real n * x \<le> 1"
    using Suc.prems by (simp add: algebra_simps) 
  have IH: "(1 + x) ^ n \<le> 1 + 2 * real n * x" using Suc.IH [OF Suc.prems(1) s] .
  have "(1 + x) ^ Suc n = (1 + x) ^ n * (1 + x)" by simp
  also have "\<dots> \<le> (1 + 2 * real n * x) * (1 + x)"
    using IH Suc.prems(1) by (intro mult_right_mono) simp_all
  also have "\<dots> = 1 + 2 * real n * x + x + (2 * real n * x) * x"
    by (simp add: algebra_simps)
  also have "\<dots> \<le> 1 + 2 * real n * x + x + 1 * x"
    using s Suc.prems(1) by (intro add_left_mono mult_right_mono) simp_all
  also have "\<dots> = 1 + 2 * real (Suc n) * x" by (simp add: algebra_simps)
  finally show ?case .
qed


lemma sum_abs_self: "(\<Sum>(x, y)\<leftarrow>zip xs xs. \<bar>x * y\<bar>) = (\<Sum>x\<leftarrow>xs. x * x :: real)"
  by (induction xs) simp_all

lemma sqrt_lower:
  fixes c :: real
  assumes "0 \<le> c" "0 \<le> Q" "c ^ (2 * n) * Q \<le> qh"
  shows "c ^ n * sqrt Q \<le> sqrt qh"
proof -
  have "sqrt (c ^ (2 * n) * Q) \<le> sqrt qh" using assms(3) by simp
  moreover have "c ^ (2 * n) = (c ^ n)\<^sup>2"
    by (simp only: power_mult [symmetric] mult.commute)
  moreover have "sqrt ((c ^ n)\<^sup>2 * Q) = c ^ n * sqrt Q"
    using assms(1) by (simp only: real_sqrt_mult real_sqrt_abs abs_of_nonneg zero_le_power)
  ultimately show ?thesis by simp
qed

lemma magnitude_lower:
  assumes "0 < rdot xs xs"
  shows "0 < (\<Sum>x\<leftarrow>xs. x * x)"
    and "(1 - 1 / 2 ^ 53) ^ (length xs + 1) * sqrt (\<Sum>x\<leftarrow>xs. x * x) \<le> rnd53 (sqrt (rdot xs xs))"
proof -
  define u :: real where "u = 1 / 2 ^ 53"
  define Q where "Q = (\<Sum>x\<leftarrow>xs. x * x)"
  define qh where "qh = rdot xs xs"
  have u: "0 \<le> 1 - u" by (simp add: u_def)
  have Q0: "0 \<le> Q" unfolding Q_def by (rule sum_list_nonneg) auto
  have "\<bar>qh\<bar> \<le> (1 + u) ^ (2 * length (zip xs xs)) * (\<bar>0\<bar> + (\<Sum>(x, y)\<leftarrow>zip xs xs. \<bar>x * y\<bar>))"
    unfolding qh_def rdot_def u_def by (rule foldl_abs_upper)
  then have up: "qh \<le> (1 + u) ^ (2 * length xs) * Q"
    by (simp add: sum_abs_self Q_def)
  show Q: "0 < (\<Sum>x\<leftarrow>xs. x * x)"
  proof (rule ccontr)
    assume "\<not> 0 < (\<Sum>x\<leftarrow>xs. x * x)"
    then have "Q = 0" using Q0 by (simp add: Q_def)
    then show False using up assms by (simp add: qh_def)
  qed
  have "(1 - u) ^ (2 * length xs) * (0 + Q) \<le> qh"
    unfolding qh_def rdot_def u_def Q_def by (rule foldl_sq_lower) simp
  then have "(1 - u) ^ length xs * sqrt Q \<le> sqrt qh"
    using u Q0 by (intro sqrt_lower) simp_all
  then have "(1 - u) ^ length xs * sqrt Q * (1 - u) \<le> sqrt qh * (1 - u)"
    using u by (intro mult_right_mono)
  moreover have "sqrt qh * (1 - u) \<le> rnd53 (sqrt qh)"
    unfolding u_def using assms by (intro rnd53_lower) (simp add: qh_def)
  ultimately show "(1 - 1 / 2 ^ 53) ^ (length xs + 1) * sqrt (\<Sum>x\<leftarrow>xs. x * x)
      \<le> rnd53 (sqrt (rdot xs xs))"
    by (simp add: u_def Q_def qh_def algebra_simps)
qed

lemma rcos_bound:
  assumes len: "length ys = length xs"
  shows "\<bar>rcos xs ys\<bar> \<le>
     (1 + 1 / 2 ^ 53) ^ (2 * length xs + 1) / (1 - 1 / 2 ^ 53) ^ (2 * length xs + 3)"
proof (cases "rnd53 (sqrt (rdot xs xs)) = 0 \<or> rnd53 (sqrt (rdot ys ys)) = 0")
  case True
  then show ?thesis by (simp add: rcos_def)
next
  case False
  define u :: real where "u = 1 / 2 ^ 53"
  define n where "n = length xs"
  define Q where "Q = (\<Sum>x\<leftarrow>xs. x * x)"
  define V where "V = (\<Sum>y\<leftarrow>ys. y * y)"
  define A where "A = (\<Sum>(x, y)\<leftarrow>zip xs ys. \<bar>x * y\<bar>)"
  define dh where "dh = rdot xs ys"
  define mq where "mq = rnd53 (sqrt (rdot xs xs))"
  define mv where "mv = rnd53 (sqrt (rdot ys ys))"
  define p where "p = rnd53 (mq * mv)"
  define K where "K = sqrt Q * sqrt V"
  have u: "0 < 1 - u" "0 < 1 + u" "0 \<le> u" by (simp_all add: u_def)
  have qpos: "0 < rdot xs xs" "0 < rdot ys ys"
    using False rdot_self_nonneg [of xs] rdot_self_nonneg [of ys]
    by (auto simp: rnd53_sign less_le)
  have Q: "0 < Q" and mq: "(1 - u) ^ (n + 1) * sqrt Q \<le> mq"
    using magnitude_lower [OF qpos(1)] by (simp_all add: Q_def mq_def u_def n_def)
  have V: "0 < V" and mv: "(1 - u) ^ (n + 1) * sqrt V \<le> mv"
    using magnitude_lower [OF qpos(2)] len by (simp_all add: V_def mv_def u_def n_def)
  have K: "0 < K" using Q V by (simp add: K_def)
  have lo: "0 \<le> (1 - u) ^ (n + 1) * sqrt Q" "0 \<le> (1 - u) ^ (n + 1) * sqrt V"
    using u Q V by simp_all
  have "(1 - u) ^ (n + 1) * sqrt Q * ((1 - u) ^ (n + 1) * sqrt V) \<le> mq * mv"
    using mq mv lo by (intro mult_mono) linarith+
  moreover have pw: "(1 - u) ^ (2 * n + 2) = (1 - u) ^ (n + 1) * (1 - u) ^ (n + 1)"
    by (simp add: mult_2 flip: power_add)
  ultimately have mm: "(1 - u) ^ (2 * n + 2) * K \<le> mq * mv"
    unfolding pw K_def by (simp only: mult_ac)
  have mm0: "0 < mq * mv"
    using mm K u by (meson less_le_trans mult_pos_pos zero_less_power)
  have "(1 - u) ^ (2 * n + 2) * K * (1 - u) \<le> mq * mv * (1 - u)"
    using mm u by (intro mult_right_mono) simp_all
  moreover have "mq * mv * (1 - u) \<le> p"
    unfolding p_def u_def using mm0 by (intro rnd53_lower) simp
  moreover have "(1 - u) ^ (2 * n + 3) = (1 - u) ^ (2 * n + 2) * (1 - u)"
  proof -
    have "2 * n + 3 = Suc (2 * n + 2)" by simp
    then show ?thesis by (simp only: power_Suc2)
  qed
  ultimately have p: "(1 - u) ^ (2 * n + 3) * K \<le> p"
    by (simp only: mult_ac)
  have D0: "0 < (1 - u) ^ (2 * n + 3) * K" using K u by simp
  then have p0: "0 < p" using p by linarith
  have "\<bar>dh\<bar> \<le> (1 + u) ^ (2 * length (zip xs ys)) * (\<bar>0\<bar> + A)"
    unfolding dh_def rdot_def u_def A_def by (rule foldl_abs_upper)
  then have d1: "\<bar>dh\<bar> \<le> (1 + u) ^ (2 * n) * A"
    using len by (simp add: n_def)
  have A0: "0 \<le> A" unfolding A_def by (rule sum_list_nonneg) auto
  have "A\<^sup>2 \<le> Q * V"
    unfolding A_def Q_def V_def using len by (intro cauchy_schwarz_list) simp
  then have "A \<le> sqrt (Q * V)" by (rule real_le_rsqrt)
  then have "A \<le> K" by (simp add: K_def real_sqrt_mult)
  then have "(1 + u) ^ (2 * n) * A \<le> (1 + u) ^ (2 * n) * K"
    using u by (intro mult_left_mono) simp_all
  then have d: "\<bar>dh\<bar> \<le> (1 + u) ^ (2 * n) * K" using d1 by linarith
  have r: "rcos xs ys = rnd53 (dh / p)"
    using False by (simp add: rcos_def dh_def p_def mq_def mv_def)
  have "\<bar>rnd53 (dh / p)\<bar> \<le> \<bar>dh / p\<bar> * (1 + u)"
    unfolding u_def by (rule rnd53_abs_upper)
  also have "\<dots> = \<bar>dh\<bar> * (1 + u) / p" using p0 by simp
  also have "\<dots> \<le> (1 + u) ^ (2 * n) * K * (1 + u) / p"
    using d u p0 by (intro divide_right_mono mult_right_mono) simp_all
  also have "\<dots> \<le> (1 + u) ^ (2 * n) * K * (1 + u) / ((1 - u) ^ (2 * n + 3) * K)"
    using p mult_pos_pos [OF p0 D0] K u by (intro divide_left_mono) simp_all
  also have "\<dots> = (1 + u) ^ (2 * n + 1) / (1 - u) ^ (2 * n + 3)"
    using K by (simp add: mult_ac)
  finally show ?thesis
    unfolding r by (simp add: u_def n_def)
qed


lemma bound_128:
  assumes "n \<le> 128"
  shows "(1 + 1 / 2 ^ 53) ^ (2 * n + 1) / (1 - 1 / 2 ^ 53) ^ (2 * n + 3) \<le> (1 + 1 / 2 ^ 42 :: real)"
proof -
  define u :: real where "u = 1 / 2 ^ 53"
  have u: "0 < 1 - u" "1 - u \<le> 1" "1 \<le> 1 + u" "0 \<le> u" by (simp_all add: u_def)
  have "(1 + u) ^ (2 * n + 1) \<le> (1 + u) ^ 259"
    using assms u by (intro power_increasing) simp_all
  moreover have "(1 - u) ^ 259 \<le> (1 - u) ^ (2 * n + 3)"
    using assms u by (intro power_decreasing) simp_all
  moreover have "0 < (1 - u) ^ 259" "0 \<le> (1 + u) ^ 259" using u by simp_all
  ultimately have "(1 + u) ^ (2 * n + 1) / (1 - u) ^ (2 * n + 3) \<le> (1 + u) ^ 259 / (1 - u) ^ 259"
    by (intro frac_le) simp_all
  also have "\<dots> = ((1 + u) / (1 - u)) ^ 259" by (simp only: power_divide)
  also have "\<dots> \<le> (1 + 3 * u) ^ 259"
  proof (rule power_mono)
    show "(1 + u) / (1 - u) \<le> 1 + 3 * u" by (simp add: u_def field_simps)
    show "0 \<le> (1 + u) / (1 - u)" using u by simp
  qed
  also have "\<dots> \<le> 1 + 2 * real 259 * (3 * u)"
    by (rule power_upper) (simp_all add: u_def)
  also have "\<dots> \<le> 1 + 1 / 2 ^ 42" by (simp add: u_def)
  finally show ?thesis by (simp only: u_def)
qed


lemma cosine_bounded:
  assumes "list_all single_range a" "list_all single_range b" "length b = length a"
    "length a \<le> 2 ^ 32"
  shows "\<exists>r. cosine a b = Num r \<and>
     \<bar>r\<bar> \<le> (1 + 1 / 2 ^ 53) ^ (2 * length a + 1) / (1 - 1 / 2 ^ 53) ^ (2 * length a + 3) \<and>
     (length a \<le> 128 \<longrightarrow> \<bar>r\<bar> \<le> 1 + 1 / 2 ^ 42)"
proof -
  have a: "map Num (map the_real a) = a" and b: "map Num (map the_real b) = b"
    and ra: "list_all (\<lambda>x. single_range (Num x)) (map the_real a)"
    and rb: "list_all (\<lambda>x. single_range (Num x)) (map the_real b)"
    using assms(1,2) range_reals by blast+
  have c: "cosine (map Num (map the_real a)) (map Num (map the_real b)) =
      Num (rcos (map the_real a) (map the_real b))"
    using assms(3,4) by (intro cosine_Num ra rb) simp_all
  have r: "\<bar>rcos (map the_real a) (map the_real b)\<bar> \<le>
      (1 + 1 / 2 ^ 53) ^ (2 * length a + 1) / (1 - 1 / 2 ^ 53) ^ (2 * length a + 3)"
    using rcos_bound [of "map the_real b" "map the_real a"] assms(3) by simp
  have "\<bar>rcos (map the_real a) (map the_real b)\<bar> \<le> 1 + 1 / 2 ^ 42" if "length a \<le> 128"
    using r bound_128 [OF that] by linarith
  then show ?thesis using c r unfolding a b by blast
qed

text \<open>A finite element of a \<^verbatim>\<open>Float32Array\<close> is within the range of single precision.\<close>

lemma fround_range: "finite_num (fround v) \<Longrightarrow> single_range (fround v)"
proof (cases v)
  case (Num x)
  assume "finite_num (fround v)"
  then obtain y where "fl32 x = Num y" using Num by (cases "fl32 x") simp_all
  then show ?thesis using Num fl32_single_range by simp
qed simp_all

lemma Float32Array_range:
  "list_all finite_num (Float32Array_from xs) \<Longrightarrow> list_all single_range (Float32Array_from xs)"
  by (simp add: Float32Array_from_def list_all_iff fround_range)

lemma reference_score_bounded:
  assumes "list_all finite_num (Float32Array_from (patternToVector q))"
    "list_all finite_num (Float32Array_from (patternToVector p))"
  shows "\<exists>r. cosine (Float32Array_from (patternToVector q)) (Float32Array_from (patternToVector p)) =
      Num r \<and> \<bar>r\<bar> \<le> 1 + 1 / 2 ^ 42"
proof -
  let ?a = "Float32Array_from (patternToVector q)" and ?b = "Float32Array_from (patternToVector p)"
  have l: "length ?a = 128" "length ?b = 128"
    by (simp_all add: length_Float32Array_from length_patternToVector)
  have "\<exists>r. cosine ?a ?b = Num r \<and>
     \<bar>r\<bar> \<le> (1 + 1 / 2 ^ 53) ^ (2 * length ?a + 1) / (1 - 1 / 2 ^ 53) ^ (2 * length ?a + 3) \<and>
     (length ?a \<le> 128 \<longrightarrow> \<bar>r\<bar> \<le> 1 + 1 / 2 ^ 42)"
    using assms l by (intro cosine_bounded Float32Array_range) simp_all
  then show ?thesis using l by auto
qed

text \<open>
  Claim C10, as the code has it. For two vectors of the same length \<open>n\<close>, at most
  \<open>2 ^ 32\<close>, whose elements are within the range of the finite single-precision numbers,
  the score of the reference routine is a number of absolute value at most
  (1 + u) ^ (2 n + 1) / (1 - u) ^ (2 n + 3), where \<open>u\<close> is 2 powi -53: the exact
  quotient is at most 1 by the Cauchy-Schwarz inequality, no operation overflows or
  underflows, and each of the roundings adds a relative error of at most \<open>u\<close>. For \<open>n\<close>
  up to 128 this is at most 1 + 2 powi -42. The results of \<^verbatim>\<open>findSimilar\<close> are records of
  stored entries \<open>is\<close> with their scores; the score of such an entry is a number of
  absolute value at most 1 + 2 powi -42 when the scores are those of the reference
  routine (as in fallback mode, or when the backend's call throws) and the encoded
  query and the entry's vector hold only finite numbers.
\<close>

theorem score_bound_rounded:
  "(list_all single_range a \<and> list_all single_range b \<and> length b = length a \<and>
    length a \<le> 2 ^ 32 \<longrightarrow>
      (\<exists>r. cosine a b = Num r \<and>
         \<bar>r\<bar> \<le> (1 + 1 / 2 ^ 53) ^ (2 * length a + 1) / (1 - 1 / 2 ^ 53) ^ (2 * length a + 3) \<and>
         (length a \<le> 128 \<longrightarrow> \<bar>r\<bar> \<le> 1 + 1 / 2 ^ 42))) \<and>
   (\<exists>is. findSimilar engine (run imp ops) q k =
           map (\<lambda>i. result_at (run imp ops) i
                  (elem_at (similarities_of (run imp ops) (Float32Array_from (patternToVector q))) i)) is \<and>
         (\<forall>i\<in>set is. i < length (patterns (run imp ops)) \<and>
            (similarities_of (run imp ops) (Float32Array_from (patternToVector q)) =
               manualCosineSimilarity (Float32Array_from (patternToVector q)) (vectors (run imp ops)) \<and>
             list_all finite_num (Float32Array_from (patternToVector q)) \<and>
             list_all finite_num (vectors (run imp ops) ! i) \<longrightarrow>
               (\<exists>r. elem_at (similarities_of (run imp ops) (Float32Array_from (patternToVector q))) i =
                      Some (Num r) \<and> \<bar>r\<bar> \<le> 1 + 1 / 2 ^ 42))))"
proof (rule conjI)
  show "list_all single_range a \<and> list_all single_range b \<and> length b = length a \<and>
    length a \<le> 2 ^ 32 \<longrightarrow>
      (\<exists>r. cosine a b = Num r \<and>
         \<bar>r\<bar> \<le> (1 + 1 / 2 ^ 53) ^ (2 * length a + 1) / (1 - 1 / 2 ^ 53) ^ (2 * length a + 3) \<and>
         (length a \<le> 128 \<longrightarrow> \<bar>r\<bar> \<le> 1 + 1 / 2 ^ 42))"
    using cosine_bounded [of a b] by blast
next
  define s where "s = run imp ops"
  define qv where "qv = Float32Array_from (patternToVector q)"
  define sims where "sims = similarities_of s qv"
  obtain js where js: "findSimilar engine s q k = map (\<lambda>i. result_at s i (elem_at sims i)) js"
    and mem: "\<forall>i\<in>set js. i < length (patterns s) \<and> 0 < outcome (patterns s ! i)"
    using findSimilar_indices [of engine imp ops q k] unfolding s_def sims_def qv_def by blast
  have "\<exists>r. elem_at sims i = Some (Num r) \<and> \<bar>r\<bar> \<le> 1 + 1 / 2 ^ 42"
    if i: "i < length (patterns s)"
      and ref: "sims = manualCosineSimilarity qv (vectors s)"
      and fq: "list_all finite_num qv" and fv: "list_all finite_num (vectors s ! i)" for i
  proof -
    have v: "vectors s ! i = Float32Array_from (patternToVector (pattern (patterns s ! i)))"
      using i run_vectors [of imp ops] by (simp add: s_def)
    have l: "i < length (vectors s)"
      using i run_vectors [of imp ops] by (simp add: s_def)
    have "elem_at sims i = Some (cosine qv (vectors s ! i))"
      using l by (simp add: ref manualCosineSimilarity_def elem_at_def)
    moreover have "\<exists>r. cosine qv (vectors s ! i) = Num r \<and> \<bar>r\<bar> \<le> 1 + 1 / 2 ^ 42"
      using fq fv unfolding v qv_def by (rule reference_score_bounded)
    ultimately show ?thesis by simp
  qed
  then have "\<forall>i\<in>set js. i < length (patterns s) \<and>
      (sims = manualCosineSimilarity qv (vectors s) \<and> list_all finite_num qv \<and>
       list_all finite_num (vectors s ! i) \<longrightarrow>
         (\<exists>r. elem_at sims i = Some (Num r) \<and> \<bar>r\<bar> \<le> 1 + 1 / 2 ^ 42))"
    using mem by blast
  with js have "\<exists>is. findSimilar engine s q k = map (\<lambda>i. result_at s i (elem_at sims i)) is \<and>
      (\<forall>i\<in>set is. i < length (patterns s) \<and>
        (sims = manualCosineSimilarity qv (vectors s) \<and> list_all finite_num qv \<and>
         list_all finite_num (vectors s ! i) \<longrightarrow>
           (\<exists>r. elem_at sims i = Some (Num r) \<and> \<bar>r\<bar> \<le> 1 + 1 / 2 ^ 42)))"
    by blast
  then show "\<exists>is. findSimilar engine (run imp ops) q k =
           map (\<lambda>i. result_at (run imp ops) i
                  (elem_at (similarities_of (run imp ops) (Float32Array_from (patternToVector q))) i)) is \<and>
         (\<forall>i\<in>set is. i < length (patterns (run imp ops)) \<and>
            (similarities_of (run imp ops) (Float32Array_from (patternToVector q)) =
               manualCosineSimilarity (Float32Array_from (patternToVector q)) (vectors (run imp ops)) \<and>
             list_all finite_num (Float32Array_from (patternToVector q)) \<and>
             list_all finite_num (vectors (run imp ops) ! i) \<longrightarrow>
               (\<exists>r. elem_at (similarities_of (run imp ops) (Float32Array_from (patternToVector q))) i =
                      Some (Num r) \<and> \<bar>r\<bar> \<le> 1 + 1 / 2 ^ 42)))"
    unfolding sims_def qv_def s_def .
qed

lemma finite_vectors:
  "list_all finite_num (Float32Array_from (patternToVector sell_pattern))"
  "list_all finite_num (Float32Array_from (patternToVector buy_pattern))"
  by (simp_all add: vector_sell vector_buy list_all_iff)

theorem score_bound_rounded_witness:
  "list_all single_range [Num 1, Num 0] \<and> length [Num 1, Num 0 :: jsnum] \<le> 128 \<and>
   (\<exists>r. cosine [Num 1, Num 0] [Num 1, Num 0] = Num r \<and> \<bar>r\<bar> \<le> 1 + 1 / 2 ^ 42) \<and>
   similarities_of trading_store (Float32Array_from (patternToVector sell_pattern)) =
     manualCosineSimilarity (Float32Array_from (patternToVector sell_pattern))
       (vectors trading_store) \<and>
   list_all finite_num (Float32Array_from (patternToVector sell_pattern)) \<and>
   list_all (list_all finite_num) (vectors trading_store) \<and>
   findSimilar leave_in_place trading_store sell_pattern 5 \<noteq> [] \<and>
   list_all (\<lambda>res. \<exists>r. similarity res = Some (Num r) \<and> \<bar>r\<bar> \<le> 1 + 1 / 2 ^ 42)
     (findSimilar leave_in_place trading_store sell_pattern 5)"
proof -
  let ?ops = "[StorePattern quiet_env buy_pattern 10, StorePattern quiet_env sell_pattern 20]"
  let ?qv = "Float32Array_from (patternToVector sell_pattern)"
  have r: "list_all single_range [Num 1, Num 0]" by (simp add: power_int_minus)
  have ref: "similarities_of trading_store ?qv = manualCosineSimilarity ?qv (vectors trading_store)"
    by (simp add: trading_store_eq similarities_of_def)
  have fv: "list_all (list_all finite_num) (vectors trading_store)"
    using finite_vectors by (simp add: trading_store_eq)
  have n: "length (patterns trading_store) = 2" "length (vectors trading_store) = 2"
    by (simp_all add: trading_store_eq)
  have ne: "findSimilar leave_in_place trading_store sell_pattern 5 \<noteq> []"
    using findSimilar_indices [of leave_in_place fallback ?ops sell_pattern 5]
    unfolding trading_store_def [symmetric] by (auto simp: trading_store_eq)
  obtain "is" where res: "findSimilar leave_in_place trading_store sell_pattern 5 =
        map (\<lambda>i. result_at trading_store i (elem_at (similarities_of trading_store ?qv) i)) is"
    and b: "\<forall>i\<in>set is. i < length (patterns trading_store) \<and>
       (similarities_of trading_store ?qv = manualCosineSimilarity ?qv (vectors trading_store) \<and>
        list_all finite_num ?qv \<and> list_all finite_num (vectors trading_store ! i) \<longrightarrow>
          (\<exists>r. elem_at (similarities_of trading_store ?qv) i = Some (Num r) \<and>
               \<bar>r\<bar> \<le> 1 + 1 / 2 ^ 42))"
    and c: "\<exists>r. cosine [Num 1, Num 0] [Num 1, Num 0] = Num r \<and> \<bar>r\<bar> \<le> 1 + 1 / 2 ^ 42"
    using score_bound_rounded [of "[Num 1, Num 0]" "[Num 1, Num 0]" leave_in_place fallback ?ops
        sell_pattern 5] r
    unfolding trading_store_def [symmetric] by auto
  have "\<exists>r. elem_at (similarities_of trading_store ?qv) i = Some (Num r) \<and> \<bar>r\<bar> \<le> 1 + 1 / 2 ^ 42"
    if "i \<in> set is" for i
  proof -
    have i: "i < 2" using b that n by auto
    then have "list_all finite_num (vectors trading_store ! i)"
      using fv n by (simp add: list_all_length)
    then show ?thesis using b that ref finite_vectors(1) by blast
  qed
  then have "list_all (\<lambda>res. \<exists>r. similarity res = Some (Num r) \<and> \<bar>r\<bar> \<le> 1 + 1 / 2 ^ 42)
     (findSimilar leave_in_place trading_store sell_pattern 5)"
    unfolding res by (simp add: list_all_iff result_at_def)
  then show ?thesis using r c ref fv ne finite_vectors(1) by simp
qed

end
